theory Spec2Isabelle
  imports Main "HOL-Library.AList"
begin

section \<open>Strings and the regular expressions of utils.js\<close>

text \<open>
  A JavaScript string is modelled as a \<^typ>\<open>string\<close>: one \<^typ>\<open>char\<close> per code unit, for
  code units in the range 0..255. Every pattern of utils.js is written out as a matcher:
  a function that, given the text from some position on, returns the length of the
  match that the regular expression finds at that position, or \<open>None\<close>.
\<close>

definition lowerc :: "char \<Rightarrow> char" where
  "lowerc c = (let n = (of_char c :: nat) in if 65 \<le> n \<and> n \<le> 90 then char_of (n + 32) else c)"

text \<open>Case-insensitive prefix test (flag \<open>i\<close>); the pattern \<open>p\<close> is given in lower case.\<close>

fun ci_prefix :: "string \<Rightarrow> string \<Rightarrow> bool" where
  "ci_prefix [] s = True"
| "ci_prefix (p # ps) [] = False"
| "ci_prefix (p # ps) (c # cs) = (lowerc c = p \<and> ci_prefix ps cs)"

text \<open>Case-sensitive prefix test, for the literal patterns without the flag \<open>i\<close>.\<close>

fun cs_prefix :: "string \<Rightarrow> string \<Rightarrow> bool" where
  "cs_prefix [] s = True"
| "cs_prefix (p # ps) [] = False"
| "cs_prefix (p # ps) (c # cs) = (c = p \<and> cs_prefix ps cs)"

text \<open>\<open>\s\<close> and the characters removed by \<open>trim()\<close>: tab, LF, VT, FF, CR, space, NBSP.\<close>

definition is_ws :: "char \<Rightarrow> bool" where
  "is_ws c = ((of_char c :: nat) \<in> {9, 10, 11, 12, 13, 32, 160})"

text \<open>\<open>\w\<close>: letters, digits and the underscore.\<close>

definition is_word :: "char \<Rightarrow> bool" where
  "is_word c = (let n = (of_char c :: nat) in
     (48 \<le> n \<and> n \<le> 57) \<or> (65 \<le> n \<and> n \<le> 90) \<or> (97 \<le> n \<and> n \<le> 122) \<or> n = 95)"

text \<open>\<open>[1-6]\<close>\<close>

definition is_level :: "char \<Rightarrow> bool" where
  "is_level c = (let n = (of_char c :: nat) in 49 \<le> n \<and> n \<le> 54)"

definition trim :: "string \<Rightarrow> string" where
  "trim s = rev (dropWhile is_ws (rev (dropWhile is_ws s)))"

text \<open>
  The lazy \<open>[\s\S]*?\<close> followed by a pattern \<open>P\<close>: the least number of characters to skip
  so that \<open>P\<close> holds of what remains.
\<close>

fun find_idx :: "(string \<Rightarrow> bool) \<Rightarrow> string \<Rightarrow> nat option" where
  "find_idx P [] = (if P [] then Some 0 else None)"
| "find_idx P (c # cs) = (if P (c # cs) then Some 0 else map_option Suc (find_idx P cs))"

text \<open>
  \<open>s.replace(re, rep)\<close> with the flag \<open>g\<close>: scan from the left, replace the match found
  at the current position and continue after it; a position without a match is copied.
  An empty match is replaced too and the scan advances by one character.
\<close>

fun replace_all :: "(string \<Rightarrow> nat option) \<Rightarrow> string \<Rightarrow> string \<Rightarrow> string" where
  "replace_all m rep [] = (case m [] of None \<Rightarrow> [] | Some n \<Rightarrow> rep)"
| "replace_all m rep (c # cs) =
     (case m (c # cs) of
        None \<Rightarrow> c # replace_all m rep cs
      | Some 0 \<Rightarrow> rep @ c # replace_all m rep cs
      | Some (Suc k) \<Rightarrow> rep @ replace_all m rep (drop k cs))"

text \<open>
  The loop \<open>while ((match = re.exec(s)) !== null)\<close> with the flag \<open>g\<close>: the successive
  matches from the left, each search starting where the previous match ended. The matcher
  returns what the loop body uses of the match together with the length of the match.
  No pattern used in such a loop matches the empty string.
\<close>

fun match_all :: "(string \<Rightarrow> ('a \<times> nat) option) \<Rightarrow> string \<Rightarrow> 'a list" where
  "match_all m [] = []"
| "match_all m (c # cs) =
     (case m (c # cs) of
        None \<Rightarrow> match_all m cs
      | Some (x, 0) \<Rightarrow> x # match_all m cs
      | Some (x, Suc k) \<Rightarrow> x # match_all m (drop k cs))"

text \<open>\<open>s.match(re)\<close> without the flag \<open>g\<close>: the leftmost match.\<close>

fun match_first :: "(string \<Rightarrow> 'a option) \<Rightarrow> string \<Rightarrow> 'a option" where
  "match_first m [] = m []"
| "match_first m (c # cs) = (case m (c # cs) of None \<Rightarrow> match_first m cs | Some x \<Rightarrow> Some x)"

text \<open>
  \<open><name[^>]*>\<close>: the opening tag at the start of the text; the result is the text
  after the closing bracket. The greedy \<open>[^>]*\<close> stops at the first closing bracket.
\<close>

definition after_gt :: "string \<Rightarrow> string option" where
  "after_gt s = (case dropWhile (\<lambda>c. c \<noteq> CHR ''>'') s of [] \<Rightarrow> None | g # r \<Rightarrow> Some r)"

definition open_tag :: "string \<Rightarrow> string \<Rightarrow> string option" where
  "open_tag name s = (if ci_prefix (CHR ''<'' # name) s then after_gt (drop (Suc (length name)) s) else None)"

section \<open>htmlToText\<close>

text \<open>\<open>/<script[\s\S]*?<\/script>/gi\<close> and \<open>/<style[\s\S]*?<\/style>/gi\<close>\<close>

definition block_m :: "string \<Rightarrow> string \<Rightarrow> nat option" where
  "block_m name s =
     (if ci_prefix (CHR ''<'' # name) s
      then (case find_idx (ci_prefix (''</'' @ name @ ''>'')) (drop (Suc (length name)) s) of
              None \<Rightarrow> None
            | Some j \<Rightarrow> Some (Suc (length name) + j + (length name + 3)))
      else None)"

text \<open>\<open>/<\/(p|div|section|article|li|h[1-6]|br|pre)>/gi\<close>: the alternatives in their order.\<close>

definition close_names :: "string list" where
  "close_names = [''p'', ''div'', ''section'', ''article'', ''li'']"

definition close_h :: "string \<Rightarrow> bool" where
  "close_h s = (case s of h # l # g # r \<Rightarrow> lowerc h = CHR ''h'' \<and> is_level l \<and> g = CHR ''>'' | _ \<Rightarrow> False)"

definition block_close_m :: "string \<Rightarrow> nat option" where
  "block_close_m s =
     (if cs_prefix ''</'' s then
        (let r = drop 2 s in
         case find (\<lambda>n. ci_prefix (n @ ''>'') r) close_names of
           Some n \<Rightarrow> Some (length n + 3)
         | None \<Rightarrow>
             if close_h r then Some 5
             else (case find (\<lambda>n. ci_prefix (n @ ''>'') r) [''br'', ''pre''] of
                     Some n \<Rightarrow> Some (length n + 3)
                   | None \<Rightarrow> None))
      else None)"

text \<open>\<open>/<(br|hr)\s*\/>/gi\<close>\<close>

definition br_m :: "string \<Rightarrow> nat option" where
  "br_m s =
     (if ci_prefix ''<br'' s \<or> ci_prefix ''<hr'' s then
        (let r = drop 3 s; w = takeWhile is_ws r in
         if cs_prefix ''/>'' (dropWhile is_ws r) then Some (3 + length w + 2) else None)
      else None)"

text \<open>\<open>/<[^>]+>/g\<close>: at least one character between the brackets.\<close>

definition tag_m :: "string \<Rightarrow> nat option" where
  "tag_m s =
     (case s of
        [] \<Rightarrow> None
      | c # r \<Rightarrow>
          if c = CHR ''<'' then
            (let inner = takeWhile (\<lambda>c. c \<noteq> CHR ''>'') r in
             if inner \<noteq> [] \<and> length inner < length r then Some (length inner + 2) else None)
          else None)"

text \<open>A literal pattern, as in \<open>.replace(/&amp;/g, "&")\<close>.\<close>

definition lit_m :: "string \<Rightarrow> string \<Rightarrow> nat option" where
  "lit_m p s = (if cs_prefix p s then Some (length p) else None)"

text \<open>\<open>/\n{3,}/g\<close>: a greedy run of at least three line feeds.\<close>

definition newlines_m :: "string \<Rightarrow> nat option" where
  "newlines_m s =
     (let n = length (takeWhile (\<lambda>c. c = CHR 0x0A) s) in if 3 \<le> n then Some n else None)"

definition withoutScripts :: "string \<Rightarrow> string" where
  "withoutScripts html = replace_all (block_m ''script'') [] html"

definition withoutStyles :: "string \<Rightarrow> string" where
  "withoutStyles html = replace_all (block_m ''style'') [] html"

definition withBreaks :: "string \<Rightarrow> string" where
  "withBreaks s = replace_all br_m [CHR 0x0A] (replace_all block_close_m [CHR 0x0A] s)"

definition stripped :: "string \<Rightarrow> string" where
  "stripped s = replace_all tag_m [] s"

definition decoded :: "string \<Rightarrow> string" where
  "decoded s =
     replace_all (lit_m ''&#39;'') [CHR 0x27]
      (replace_all (lit_m ''&quot;'') [CHR 0x22]
        (replace_all (lit_m ''&gt;'') ''>''
          (replace_all (lit_m ''&lt;'') ''<''
            (replace_all (lit_m ''&amp;'') ''&''
              (replace_all (lit_m ''&nbsp;'') '' '' s)))))"

text \<open>The steps of htmlToText that follow the removal of the script and style blocks.\<close>

definition afterBlocks :: "string \<Rightarrow> string" where
  "afterBlocks s =
     trim (replace_all newlines_m [CHR 0x0A, CHR 0x0A] (decoded (stripped (withBreaks s))))"

definition htmlToText :: "string \<Rightarrow> string" where
  "htmlToText html = afterBlocks (withoutStyles (withoutScripts html))"

section \<open>extractCodeBlocks\<close>

text \<open>\<open>/<pre[^>]*><code[^>]*>[\s\S]*?<\/code><\/pre>/gi\<close>; the loop body uses \<open>match[0]\<close>.\<close>

definition pre_code_m :: "string \<Rightarrow> (string \<times> nat) option" where
  "pre_code_m s =
     (case open_tag ''pre'' s of
        None \<Rightarrow> None
      | Some r1 \<Rightarrow>
          (case open_tag ''code'' r1 of
             None \<Rightarrow> None
           | Some r2 \<Rightarrow>
               (case find_idx (ci_prefix ''</code></pre>'') r2 of
                  None \<Rightarrow> None
                | Some j \<Rightarrow> (let n = length s - length r2 + j + 13 in Some (take n s, n)))))"

text \<open>\<open>/<code[^>]*>[\s\S]*?<\/code>/gi\<close>\<close>

definition code_m :: "string \<Rightarrow> (string \<times> nat) option" where
  "code_m s =
     (case open_tag ''code'' s of
        None \<Rightarrow> None
      | Some r \<Rightarrow>
          (case find_idx (ci_prefix ''</code>'') r of
             None \<Rightarrow> None
           | Some j \<Rightarrow> (let n = length s - length r + j + 7 in Some (take n s, n))))"

text \<open>\<open>s.replace(/^<[^>]+>/, "")\<close>: a tag at the very start is removed.\<close>

definition strip_first_tag :: "string \<Rightarrow> string" where
  "strip_first_tag s = (case tag_m s of None \<Rightarrow> s | Some n \<Rightarrow> drop n s)"

text \<open>
  \<open>s.replace(/<[^>]+>$/, "")\<close>: the leftmost position from which a tag runs exactly to
  the end of the text; everything from there on is removed.
\<close>

definition tag_to_end :: "string \<Rightarrow> bool" where
  "tag_to_end s = (case tag_m s of None \<Rightarrow> False | Some n \<Rightarrow> n = length s)"

definition strip_last_tag :: "string \<Rightarrow> string" where
  "strip_last_tag s = (case find_idx tag_to_end s of None \<Rightarrow> s | Some i \<Rightarrow> take i s)"

text \<open>\<open>code.split("\n")\<close>\<close>

fun split_lines :: "string \<Rightarrow> string list" where
  "split_lines [] = [[]]"
| "split_lines (c # cs) =
     (if c = CHR 0x0A then [] # split_lines cs
      else (case split_lines cs of l # ls \<Rightarrow> (c # l) # ls | [] \<Rightarrow> [[c]]))"

text \<open>\<open>s.includes(p)\<close>\<close>

definition includes_str :: "string \<Rightarrow> string \<Rightarrow> bool" where
  "includes_str s p = (find_idx (cs_prefix p) s \<noteq> None)"

definition code_lines :: "string \<Rightarrow> string list" where
  "code_lines code = filter (\<lambda>line. length (trim line) > 0) (split_lines code)"

definition pushMatchText :: "string \<Rightarrow> string list \<Rightarrow> string list" where
  "pushMatchText s blocks =
     (let inner = strip_last_tag (strip_first_tag s);
          code = htmlToText inner;
          lines = code_lines code
      in if length lines = 1 \<and> includes_str code ''import'' then blocks
         else if length lines > 2 then blocks @ [code]
         else blocks)"

definition extractCodeBlocks :: "string \<Rightarrow> string list" where
  "extractCodeBlocks html =
     (let blocks = [];
          blocks = fold pushMatchText (match_all pre_code_m html) blocks;
          blocks = fold pushMatchText (match_all code_m html) blocks
      in blocks)"

section \<open>extractAPIInfo\<close>

record api_input =
  in_prop :: string
  in_type :: string
  in_default :: string
  in_description :: string

record api_output =
  out_prop :: string
  out_type :: string
  out_description :: string

record api_component =
  name :: string
  selector :: string
  inputs :: "api_input list"
  outputs :: "api_output list"

record api_example =
  title :: string
  code :: string
  language :: string

record api_info =
  brainAPI :: "api_component list"
  helmAPI :: "api_component list"
  examples :: "api_example list"

text \<open>\<open><h[1-6][^>]*>\<close> at the start of the text; the result is the text after the tag.\<close>

definition open_h :: "string \<Rightarrow> string option" where
  "open_h s =
     (case s of
        a # h # l # r \<Rightarrow>
          if a = CHR ''<'' \<and> lowerc h = CHR ''h'' \<and> is_level l then after_gt r else None
      | _ \<Rightarrow> None)"

text \<open>\<open><\/h[1-6]>\<close> at the start of the text; the result is the text after the tag.\<close>

definition close_h_tag :: "string \<Rightarrow> string option" where
  "close_h_tag s = (if cs_prefix ''</'' s \<and> close_h (drop 2 s) then Some (drop 5 s) else None)"

text \<open>
  \<open><h[1-6][^>]*>TITLE<\/h[1-6]>\<close> at the start of the text, \<open>TITLE\<close> in lower case; the
  result is the text after the heading.
\<close>

definition heading_m :: "string \<Rightarrow> string \<Rightarrow> string option" where
  "heading_m t s =
     (case open_h s of
        None \<Rightarrow> None
      | Some r \<Rightarrow> if ci_prefix t r then close_h_tag (drop (length t) r) else None)"

text \<open>
  The lookaheads \<open>(?=<h[1-6][^>]*>(?:Helm API|On this page|$)|$)\<close> of the Brain API
  pattern and \<open>(?=<h[1-6][^>]*>(?:On this page|$)|$)\<close> of the Helm API pattern.
\<close>

definition section_stop :: "string list \<Rightarrow> string \<Rightarrow> bool" where
  "section_stop ts s =
     (s = [] \<or> (case open_h s of None \<Rightarrow> False | Some r \<Rightarrow> (\<exists>t \<in> set ts. ci_prefix t r) \<or> r = []))"

text \<open>Group 1 of a section pattern matched at the start of the text.\<close>

definition section_m :: "string \<Rightarrow> string list \<Rightarrow> string \<Rightarrow> string option" where
  "section_m t ts s =
     (case heading_m t s of
        None \<Rightarrow> None
      | Some r \<Rightarrow> (case find_idx (section_stop ts) r of None \<Rightarrow> None | Some j \<Rightarrow> Some (take j r)))"

definition brainAPIMatch :: "string \<Rightarrow> string option" where
  "brainAPIMatch html = match_first (section_m ''brain api'' [''helm api'', ''on this page'']) html"

definition helmAPIMatch :: "string \<Rightarrow> string option" where
  "helmAPIMatch html = match_first (section_m ''helm api'' [''on this page'']) html"

text \<open>
  \<open><h[1-6][^>]*>((Brn|Hlm)\w+)<\/h[1-6]>\<close> at the start of the text: group 1 and the text
  after the heading.
\<close>

definition comp_head :: "string \<Rightarrow> (string \<times> string) option" where
  "comp_head s =
     (case open_h s of
        None \<Rightarrow> None
      | Some r \<Rightarrow>
          if ci_prefix ''brn'' r \<or> ci_prefix ''hlm'' r then
            (let w = takeWhile is_word (drop 3 r) in
             if w = [] then None
             else (case close_h_tag (drop (3 + length w) r) of
                     None \<Rightarrow> None
                   | Some rest \<Rightarrow> Some (take (3 + length w) r, rest)))
          else None)"

text \<open>
  The component pattern of extractAPIComponents, matched at the start of the text:
  groups 1 and 3 and the length of the match (the lookahead consumes nothing).
\<close>

definition comp_stop :: "string \<Rightarrow> bool" where
  "comp_stop s = (s = [] \<or> comp_head s \<noteq> None)"

definition component_m :: "string \<Rightarrow> ((string \<times> string) \<times> nat) option" where
  "component_m s =
     (case comp_head s of
        None \<Rightarrow> None
      | Some (nm, rest) \<Rightarrow>
          (case find_idx comp_stop rest of
             None \<Rightarrow> None
           | Some j \<Rightarrow> Some ((nm, take j rest), length s - length rest + j)))"

text \<open>
  \<open>/Selector:\s*([^\n<]+)/i\<close> at the start of the text: the greedy \<open>\s*\<close> gives
  characters back until group 1 can start.
\<close>

definition sel_char :: "char \<Rightarrow> bool" where
  "sel_char c = (c \<noteq> CHR 0x0A \<and> c \<noteq> CHR ''<'')"

fun sel_back :: "nat \<Rightarrow> string \<Rightarrow> string option" where
  "sel_back j r =
     (case takeWhile sel_char (drop j r) of
        [] \<Rightarrow> (case j of 0 \<Rightarrow> None | Suc i \<Rightarrow> sel_back i r)
      | g # gs \<Rightarrow> Some (g # gs))"

declare sel_back.simps [simp del]

definition selector_m :: "string \<Rightarrow> string option" where
  "selector_m s =
     (if ci_prefix ''selector:'' s then
        (let r = drop 9 s in sel_back (length (takeWhile is_ws r)) r)
      else None)"

text \<open>\<open>/<tr[^>]*>([\s\S]*?)<\/tr>/gi\<close>: group 1 and the length of the match.\<close>

definition row_m :: "string \<Rightarrow> (string \<times> nat) option" where
  "row_m s =
     (case open_tag ''tr'' s of
        None \<Rightarrow> None
      | Some r \<Rightarrow>
          (case find_idx (ci_prefix ''</tr>'') r of
             None \<Rightarrow> None
           | Some j \<Rightarrow> Some (take j r, length s - length r + j + 5)))"

text \<open>\<open>/<t[dh][^>]*>([\s\S]*?)<\/t[dh]>/gi\<close>: group 1 and the length of the match.\<close>

definition is_dh :: "char \<Rightarrow> bool" where
  "is_dh c = (lowerc c = CHR ''d'' \<or> lowerc c = CHR ''h'')"

definition cell_open :: "string \<Rightarrow> string option" where
  "cell_open s =
     (case s of
        a # t # d # r \<Rightarrow>
          if a = CHR ''<'' \<and> lowerc t = CHR ''t'' \<and> is_dh d then after_gt r else None
      | _ \<Rightarrow> None)"

definition cell_close :: "string \<Rightarrow> bool" where
  "cell_close s =
     (case s of
        a # b # t # d # g # r \<Rightarrow>
          a = CHR ''<'' \<and> b = CHR ''/'' \<and> lowerc t = CHR ''t'' \<and> is_dh d \<and> g = CHR ''>''
      | _ \<Rightarrow> False)"

definition cell_m :: "string \<Rightarrow> (string \<times> nat) option" where
  "cell_m s =
     (case cell_open s of
        None \<Rightarrow> None
      | Some r \<Rightarrow>
          (case find_idx cell_close r of
             None \<Rightarrow> None
           | Some j \<Rightarrow> Some (take j r, length s - length r + j + 5)))"

text \<open>
  The section pattern of extractPropsFromTable,
  \<open><h[1-6][^>]*>${tableType}<\/h[1-6]>([\s\S]*?)(?=<h[1-6]|$)\<close> with the flag \<open>i\<close>.
\<close>

definition table_stop :: "string \<Rightarrow> bool" where
  "table_stop s =
     (case s of
        [] \<Rightarrow> True
      | a # r \<Rightarrow> a = CHR ''<'' \<and> (case r of h # l # r' \<Rightarrow> lowerc h = CHR ''h'' \<and> is_level l | _ \<Rightarrow> False))"

definition table_section_m :: "string \<Rightarrow> string \<Rightarrow> string option" where
  "table_section_m tableType s =
     (case heading_m (map lowerc tableType) s of
        None \<Rightarrow> None
      | Some r \<Rightarrow> (case find_idx table_stop r of None \<Rightarrow> None | Some j \<Rightarrow> Some (take j r)))"

text \<open>The cell texts of one row: \<open>htmlToText(cellMatch[1]).trim()\<close> for every cell.\<close>

definition row_cells :: "string \<Rightarrow> string list" where
  "row_cells rowContent = map (\<lambda>c. trim (htmlToText c)) (match_all cell_m rowContent)"

text \<open>
  A table row is an input or an output entry, by \<open>tableType\<close>. \<open>cells[3] || ""\<close> is the
  fourth cell, or the empty string when there is none.
\<close>

datatype api_prop = Input api_input | Output api_output

definition cell_or_empty :: "string list \<Rightarrow> nat \<Rightarrow> string" where
  "cell_or_empty cells i = (if i < length cells then cells ! i else [])"

definition row_prop :: "string \<Rightarrow> string list \<Rightarrow> api_prop" where
  "row_prop tableType cells =
     (if tableType = ''Inputs'' then
        Input \<lparr>in_prop = cells ! 0, in_type = cells ! 1, in_default = cells ! 2,
               in_description = cell_or_empty cells 3\<rparr>
      else
        Output \<lparr>out_prop = cells ! 0, out_type = cells ! 1,
                out_description = cell_or_empty cells 2\<rparr>)"

text \<open>The row loop of extractPropsFromTable, with its flag \<open>isHeaderRow\<close>.\<close>

fun rows_loop :: "string \<Rightarrow> bool \<Rightarrow> string list \<Rightarrow> api_prop list \<Rightarrow> api_prop list" where
  "rows_loop tableType isHeaderRow [] props = props"
| "rows_loop tableType isHeaderRow (rowContent # rows) props =
     (if isHeaderRow then rows_loop tableType False rows props
      else (let cells = row_cells rowContent in
            if length cells \<ge> 3 then rows_loop tableType False rows (props @ [row_prop tableType cells])
            else rows_loop tableType False rows props))"

definition extractPropsFromTable :: "string \<Rightarrow> string \<Rightarrow> api_prop list" where
  "extractPropsFromTable html tableType =
     (case match_first (table_section_m tableType) html of
        None \<Rightarrow> []
      | Some tableSection \<Rightarrow> rows_loop tableType True (match_all row_m tableSection) [])"

definition the_inputs :: "api_prop list \<Rightarrow> api_input list" where
  "the_inputs ps = concat (map (\<lambda>p. case p of Input i \<Rightarrow> [i] | Output _ \<Rightarrow> []) ps)"

definition the_outputs :: "api_prop list \<Rightarrow> api_output list" where
  "the_outputs ps = concat (map (\<lambda>p. case p of Output out \<Rightarrow> [out] | Input _ \<Rightarrow> []) ps)"

definition component_of :: "string \<times> string \<Rightarrow> api_component" where
  "component_of m =
     (let nm = fst m; content = snd m;
          sel = (case match_first selector_m content of None \<Rightarrow> [] | Some g \<Rightarrow> trim g)
      in \<lparr>name = nm, selector = sel,
          inputs = the_inputs (extractPropsFromTable content ''Inputs''),
          outputs = the_outputs (extractPropsFromTable content ''Outputs'')\<rparr>)"

definition extractAPIComponents :: "string \<Rightarrow> api_component list" where
  "extractAPIComponents html = map component_of (match_all component_m html)"

definition detectLanguage :: "string \<Rightarrow> string" where
  "detectLanguage c =
     (if includes_str c ''import'' \<and> includes_str c ''Component'' then ''typescript''
      else if includes_str c ''import'' \<and> includes_str c ''from'' then ''javascript''
      else if includes_str c ''<'' \<and> includes_str c ''>'' \<and> includes_str c ''hlm'' then ''html''
      else if includes_str c ''npm'' \<or> includes_str c ''npx'' \<or> includes_str c ''ng '' then ''bash''
      else ''typescript'')"

text \<open>\<open>`Example ${index + 1}`\<close>: the decimal digits of a number.\<close>

fun digits :: "nat \<Rightarrow> string" where
  "digits n = (if n < 10 then [char_of (48 + n)] else digits (n div 10) @ [char_of (48 + n mod 10)])"

declare digits.simps [simp del]

definition example_of :: "nat \<Rightarrow> string \<Rightarrow> api_example" where
  "example_of index c =
     \<lparr>title = ''Example '' @ digits (index + 1), code = c, language = detectLanguage c\<rparr>"

definition examples_of :: "string list \<Rightarrow> api_example list" where
  "examples_of codeBlocks = map (\<lambda>(i, c). example_of i c) (enumerate 0 (take 10 codeBlocks))"

text \<open>
  The argument of extractAPIInfo is whatever the caller passes. \<open>html.match\<close> is the first
  thing the body of the \<open>try\<close> does: on anything but a string it throws a TypeError,
  which the \<open>catch\<close> logs, and the untouched \<open>apiInfo\<close> is returned. On a string no step
  of the body throws.
\<close>

datatype js_value = JSString string | JSUndefined | JSNull | JSNumber int | JSBoolean bool

datatype js_error = TypeError string | Error string

definition str_of :: "js_value \<Rightarrow> js_error + string" where
  "str_of v = (case v of JSString s \<Rightarrow> Inr s | _ \<Rightarrow> Inl (TypeError ''html.match is not a function''))"

definition extractAPIInfo_try :: "js_value \<Rightarrow> api_info \<Rightarrow> js_error \<times> api_info + api_info" where
  "extractAPIInfo_try v apiInfo =
     (case str_of v of
        Inl e \<Rightarrow> Inl (e, apiInfo)
      | Inr html \<Rightarrow>
          (let apiInfo = (case brainAPIMatch html of
                            None \<Rightarrow> apiInfo
                          | Some brainSection \<Rightarrow> apiInfo\<lparr>brainAPI := extractAPIComponents brainSection\<rparr>);
               apiInfo = (case helmAPIMatch html of
                            None \<Rightarrow> apiInfo
                          | Some helmSection \<Rightarrow> apiInfo\<lparr>helmAPI := extractAPIComponents helmSection\<rparr>);
               codeBlocks = extractCodeBlocks html
           in Inr (apiInfo\<lparr>examples := examples_of codeBlocks\<rparr>)))"

definition extractAPIInfo :: "js_value \<Rightarrow> api_info" where
  "extractAPIInfo v =
     (let apiInfo = \<lparr>brainAPI = [], helmAPI = [], examples = []\<rparr> in
      case extractAPIInfo_try v apiInfo of
        Inl (e, apiInfo') \<Rightarrow> apiInfo'
      | Inr apiInfo' \<Rightarrow> apiInfo')"

section \<open>The world of the cache: clock, environment, network and disk\<close>

text \<open>
  JSON values, as \<open>JSON.parse\<close> and \<open>JSON.stringify\<close> exchange them with the files. An
  object is the association list of its own properties in the order of its keys. \<open>JIso t\<close>
  is the string that \<open>new Date(t).toISOString()\<close> produces, which \<open>new Date(...)\<close> reads
  back as \<open>t\<close> milliseconds. Numbers are integers.
\<close>

datatype json =
    JNull | JBool bool | JNum int | JStr string | JIso int
  | JArr "json list" | JObj "(string \<times> json) list"

text \<open>
  \<open>v[k]\<close>: a TypeError on \<open>null\<close>; \<open>None\<close> is \<open>undefined\<close>. Only own
  fields of objects are looked up.
\<close>

definition get_field :: "json \<Rightarrow> string \<Rightarrow> js_error + json option" where
  "get_field v k =
     (case v of
        JNull \<Rightarrow> Inl (TypeError ''Cannot read properties of null'')
      | JObj fs \<Rightarrow> Inr (map_of fs k)
      | _ \<Rightarrow> Inr None)"

definition truthy :: "json \<Rightarrow> bool" where
  "truthy v =
     (case v of
        JNull \<Rightarrow> False | JBool b \<Rightarrow> b | JNum n \<Rightarrow> n \<noteq> 0 | JStr s \<Rightarrow> s \<noteq> []
      | JIso t \<Rightarrow> True | JArr xs \<Rightarrow> True | JObj fs \<Rightarrow> True)"

text \<open>
  \<open>new Date(x).getTime()\<close>; \<open>None\<close> is NaN. A \<open>JStr\<close> is a string that is not a
  timestamp.
\<close>

definition date_ms :: "json option \<Rightarrow> int option" where
  "date_ms x =
     (case x of
        Some (JIso t) \<Rightarrow> Some t
      | Some (JNum n) \<Rightarrow> if \<bar>n\<bar> \<le> 8640000000000000 then Some n else None
      | Some JNull \<Rightarrow> Some 0
      | Some (JBool b) \<Rightarrow> Some (if b then 1 else 0)
      | _ \<Rightarrow> None)"

text \<open>
  An environment variable read as \<open>Number(process.env.X || dflt)\<close>: unset or empty, a
  string that \<open>Number\<close> reads as an integer, or a string that it reads as NaN.
\<close>

datatype env_value = EnvUnset | EnvNumber int | EnvNaN

definition env_number :: "env_value \<Rightarrow> int \<Rightarrow> int option" where
  "env_number e dflt = (case e of EnvUnset \<Rightarrow> Some dflt | EnvNumber n \<Rightarrow> Some n | EnvNaN \<Rightarrow> None)"

text \<open>The answer of \<open>fetch(url)\<close>: the promise rejects, or resolves to a response.\<close>

record response =
  status :: nat
  statusText :: string
  body :: string

datatype fetch_outcome = Rejected string | Resolved response

definition ok :: "response \<Rightarrow> bool" where
  "ok res = (200 \<le> status res \<and> status res \<le> 299)"

text \<open>
  Assignment \<open>obj[key] = value\<close> of an object value to a plain object. The own keys of
  an object are ordered: the array indices in ascending order, then the other keys in
  the order of their creation. The key \<open>__proto__\<close>, unless it is already an own property
  (as \<open>JSON.parse\<close> creates it), sets the prototype and creates no property.
\<close>

definition is_index :: "string \<Rightarrow> bool" where
  "is_index k =
     (k \<noteq> [] \<and> (\<forall>c \<in> set k. 48 \<le> (of_char c :: nat) \<and> (of_char c :: nat) \<le> 57)
      \<and> (hd k = CHR ''0'' \<longrightarrow> k = ''0'')
      \<and> foldl (\<lambda>n c. 10 * n + (of_char c - 48)) (0::nat) k < 4294967295)"

definition index_value :: "string \<Rightarrow> nat" where
  "index_value k = foldl (\<lambda>n c. 10 * n + (of_char c - 48)) 0 k"

fun insert_index :: "string \<Rightarrow> 'a \<Rightarrow> (string \<times> 'a) list \<Rightarrow> (string \<times> 'a) list" where
  "insert_index k v [] = [(k, v)]"
| "insert_index k v ((k', v') # fs) =
     (if is_index k' \<and> index_value k' < index_value k then (k', v') # insert_index k v fs
      else (k, v) # (k', v') # fs)"

definition obj_put :: "string \<Rightarrow> 'a \<Rightarrow> (string \<times> 'a) list \<Rightarrow> (string \<times> 'a) list" where
  "obj_put k v fs =
     (if k \<in> fst ` set fs then AList.update k v fs
      else if k = ''__proto__'' then fs
      else if is_index k then insert_index k v fs
      else fs @ [(k, v)])"

text \<open>
  The same assignment to an array: an index sets the element, the elements skipped are
  holes, which \<open>JSON.stringify\<close> writes as \<open>null\<close>; another key creates a property that
  \<open>JSON.stringify\<close> leaves out and that nothing reads.
\<close>

definition arr_put :: "string \<Rightarrow> json \<Rightarrow> json list \<Rightarrow> json list" where
  "arr_put k v xs =
     (if is_index k then
        (let i = index_value k in
         if i < length xs then xs[i := v] else xs @ replicate (i - length xs) JNull @ [v])
      else xs)"

text \<open>
  Paths. \<open>path.join\<close> joins its arguments with \<open>/\<close> and normalises the result: empty
  segments and \<open>.\<close> are dropped and \<open>..\<close> removes the segment before it, if there is
  one. A path is the list of its segments from the root; \<open>base\<close> is an absolute path.
\<close>

type_synonym path = "string list"

fun segments :: "string \<Rightarrow> string \<Rightarrow> string list" where
  "segments cur [] = [cur]"
| "segments cur (c # cs) =
     (if c = CHR ''/'' then cur # segments [] cs else segments (cur @ [c]) cs)"

fun resolve :: "path \<Rightarrow> string list \<Rightarrow> path" where
  "resolve acc [] = acc"
| "resolve acc (s # ss) =
     (if s = [] \<or> s = ''.'' then resolve acc ss
      else if s = ''..'' then resolve (butlast acc) ss
      else resolve (acc @ [s]) ss)"

definition path_join :: "path \<Rightarrow> string list \<Rightarrow> path" where
  "path_join base parts = resolve base (concat (map (segments []) parts))"

definition path_string :: "path \<Rightarrow> string" where
  "path_string p = (if p = [] then ''/'' else concat (map (\<lambda>s. CHR ''/'' # s) p))"

text \<open>A file holds the JSON text of a value, or something that \<open>JSON.parse\<close> rejects.\<close>

datatype 'a file_content = Corrupt | Json 'a

text \<open>The disk: the directories that exist and the files with their content.\<close>

record disk =
  dirs :: "path set"
  store :: "path \<rightharpoonup> json file_content"

definition is_file :: "disk \<Rightarrow> path \<Rightarrow> bool" where
  "is_file d p = (p \<notin> dirs d \<and> store d p \<noteq> None)"

text \<open>The path with the directories above it, from the root down.\<close>

definition ancestors :: "path \<Rightarrow> path list" where
  "ancestors p = map (\<lambda>n. take n p) [0..<Suc (length p)]"

text \<open>The error of a file system call: \<open>CODE: description, syscall 'path'\<close>.\<close>

definition fs_error :: "string \<Rightarrow> string \<Rightarrow> path \<Rightarrow> js_error" where
  "fs_error what syscall p =
     Error (what @ '', '' @ syscall @ '' '' @ [CHR 0x27] @ path_string p @ [CHR 0x27])"

text \<open>\<open>fs.mkdir(p, {recursive: true})\<close>\<close>

definition mkdir_recursive :: "disk \<Rightarrow> path \<Rightarrow> js_error + disk" where
  "mkdir_recursive d p =
     (if is_file d p then Inl (fs_error ''EEXIST: file already exists'' ''mkdir'' p)
      else if \<exists>q \<in> set (ancestors p). is_file d q
        then Inl (fs_error ''ENOTDIR: not a directory'' ''mkdir'' p)
      else Inr (d\<lparr>dirs := dirs d \<union> set (ancestors p)\<rparr>))"

text \<open>\<open>fs.writeFile(p, text)\<close>: the file is created or replaced in an existing directory.\<close>

definition writeFile :: "disk \<Rightarrow> path \<Rightarrow> json file_content \<Rightarrow> js_error + disk" where
  "writeFile d p content =
     (if p \<in> dirs d then Inl (fs_error ''EISDIR: illegal operation on a directory'' ''open'' p)
      else if butlast p \<in> dirs d then Inr (d\<lparr>store := (store d)(p \<mapsto> content)\<rparr>)
      else if \<exists>q \<in> set (ancestors (butlast p)). is_file d q
        then Inl (fs_error ''ENOTDIR: not a directory'' ''open'' p)
      else Inl (fs_error ''ENOENT: no such file or directory'' ''open'' p))"

text \<open>
  \<open>JSON.parse(await fs.readFile(p, "utf-8"))\<close> inside a \<open>try\<close> whose \<open>catch\<close> takes every
  error: the value, or \<open>None\<close> when the file cannot be read or parsed.
\<close>

definition readJson :: "disk \<Rightarrow> path \<Rightarrow> json option" where
  "readJson d p =
     (if p \<in> dirs d then None
      else (case store d p of Some (Json j) \<Rightarrow> Some j | _ \<Rightarrow> None))"

text \<open>
  \<open>cacheDir\<close> is \<open>path.join(PROJECT_ROOT, "cache")\<close>. \<open>cacheMetadata\<close> is \<open>JNull\<close> until
  the manager is initialized. \<open>inspect\<close> and \<open>toISOString\<close> are the renderings of a
  string and of a time that the platform puts into error messages.
\<close>

record world =
  clock :: int
  env_ttl_hours :: env_value
  env_ttl_ms :: env_value
  network :: "string \<Rightarrow> fetch_outcome"
  requests :: "string list"
  responseCache :: "string \<rightharpoonup> string \<times> int"
  cacheDir :: path
  currentVersion :: "string option"
  cacheMetadata :: json
  files :: disk
  progress :: "(nat \<times> nat) list"
  inspect :: "string \<Rightarrow> string"
  toISOString :: "int \<Rightarrow> string"

section \<open>fetchContent\<close>

definition fetchContent :: "world \<Rightarrow> string \<Rightarrow> string \<Rightarrow> bool \<Rightarrow> (js_error + string) \<times> world" where
  "fetchContent w url format noCache =
     (let ttlMs = env_number (env_ttl_ms w) (5 * 60 * 1000);
          cacheKey = url @ ''::'' @ format;
          now = clock w;
          hit = (if \<not> noCache then
                   (case responseCache w cacheKey of
                      None \<Rightarrow> None
                    | Some (content, timestampMs) \<Rightarrow>
                        (case ttlMs of
                           None \<Rightarrow> None
                         | Some ttl \<Rightarrow> if now - timestampMs < ttl then Some content else None))
                 else None)
      in case hit of
           Some content \<Rightarrow> (Inr content, w)
         | None \<Rightarrow>
             (let w = w\<lparr>requests := requests w @ [url]\<rparr> in
              case network w url of
                Rejected msg \<Rightarrow> (Inl (TypeError msg), w)
              | Resolved res \<Rightarrow>
                  if \<not> ok res then
                    (Inl (Error (''Failed to fetch '' @ url @ '': '' @ digits (status res) @ '' ''
                                 @ statusText res)), w)
                  else
                    (let html = body res;
                         result = (if format = ''text'' then htmlToText html else html);
                         w = (if \<not> noCache
                              then w\<lparr>responseCache := (responseCache w)(cacheKey \<mapsto> (result, now))\<rparr>
                              else w)
                     in (Inr result, w))))"

section \<open>CacheManager\<close>

text \<open>
  The path that a call of \<open>fs\<close> receives from \<open>path.join(this.cacheDir, ...parts)\<close>;
  \<open>fs\<close> refuses a path with a null byte.
\<close>

definition checked :: "world \<Rightarrow> string list \<Rightarrow> path \<Rightarrow> js_error + path" where
  "checked w parts p =
     (if \<exists>s \<in> set parts. CHR 0x00 \<in> set s then
        Inl (TypeError (''The argument '' @ [CHR 0x27] @ ''path'' @ [CHR 0x27]
               @ '' must be a string, Uint8Array, or URL without null bytes. Received ''
               @ inspect w (path_string p)))
      else Inr p)"

definition fs_path :: "world \<Rightarrow> string list \<Rightarrow> js_error + path" where
  "fs_path w parts = checked w parts (path_join (cacheDir w) parts)"

definition componentFile :: "world \<Rightarrow> string \<Rightarrow> string \<Rightarrow> js_error + path" where
  "componentFile w v componentName = fs_path w [v, ''components'', componentName @ ''.json'']"

definition docsFile :: "world \<Rightarrow> string \<Rightarrow> string \<Rightarrow> js_error + path" where
  "docsFile w v topic = fs_path w [v, ''docs'', topic @ ''.json'']"

definition metadataPath :: "world \<Rightarrow> string \<Rightarrow> js_error + path" where
  "metadataPath w v = fs_path w [v, ''metadata.json'']"

text \<open>Writing and reading a file of the cache; reading happens inside a \<open>try\<close> only.\<close>

definition write_at :: "world \<Rightarrow> js_error + path \<Rightarrow> json \<Rightarrow> (js_error + unit) \<times> world" where
  "write_at w fp j =
     (case fp of
        Inl e \<Rightarrow> (Inl e, w)
      | Inr p \<Rightarrow> (case writeFile (files w) p (Json j) of
                   Inl e \<Rightarrow> (Inl e, w)
                 | Inr d \<Rightarrow> (Inr (), w\<lparr>files := d\<rparr>)))"

definition read_at :: "world \<Rightarrow> js_error + path \<Rightarrow> json option" where
  "read_at w fp = (case fp of Inl e \<Rightarrow> None | Inr p \<Rightarrow> readJson (files w) p)"

definition mkdir_at :: "world \<Rightarrow> js_error + path \<Rightarrow> (js_error + unit) \<times> world" where
  "mkdir_at w fp =
     (case fp of
        Inl e \<Rightarrow> (Inl e, w)
      | Inr p \<Rightarrow> (case mkdir_recursive (files w) p of
                   Inl e \<Rightarrow> (Inl e, w)
                 | Inr d \<Rightarrow> (Inr (), w\<lparr>files := d\<rparr>)))"

text \<open>\<open>path.join\<close> throws when the version is still \<open>null\<close>.\<close>

definition no_version :: js_error where
  "no_version =
     TypeError (''The '' @ [CHR 0x22] @ ''path'' @ [CHR 0x22] @ '' argument must be of type string. Received null'')"

definition ensureCacheDir :: "world \<Rightarrow> (js_error + unit) \<times> world" where
  "ensureCacheDir w =
     (case currentVersion w of
        None \<Rightarrow> (Inl no_version, w)
      | Some v \<Rightarrow>
          (let versionDir = path_join (cacheDir w) [v];
               componentsDir = path_join versionDir [''components''];
               docsDir = path_join versionDir [''docs'']
           in case mkdir_at w (checked w [v] componentsDir) of
                (Inl e, w) \<Rightarrow> (Inl e, w)
              | (Inr u, w) \<Rightarrow> mkdir_at w (checked w [v] docsDir)))"

text \<open>\<open>JSON.stringify(null)\<close> is the text \<open>null\<close>, which is written like any other value.\<close>

definition saveMetadata :: "world \<Rightarrow> (js_error + unit) \<times> world" where
  "saveMetadata w =
     (case currentVersion w of
        None \<Rightarrow> (Inl no_version, w)
      | Some v \<Rightarrow> write_at w (metadataPath w v) (cacheMetadata w))"

definition loadMetadata :: "world \<Rightarrow> (js_error + unit) \<times> world" where
  "loadMetadata w =
     (case currentVersion w of
        None \<Rightarrow> (Inl no_version, w)
      | Some v \<Rightarrow>
          (case read_at w (metadataPath w v) of
             Some j \<Rightarrow> (Inr (), w\<lparr>cacheMetadata := j\<rparr>)
           | None \<Rightarrow>
               saveMetadata
                 (w\<lparr>cacheMetadata :=
                      JObj [(''version'', JStr v), (''createdAt'', JIso (clock w)),
                            (''lastUpdated'', JIso (clock w)), (''components'', JObj []),
                            (''docs'', JObj [])]\<rparr>)))"

definition initialize :: "world \<Rightarrow> string option \<Rightarrow> (js_error + string) \<times> world" where
  "initialize w spartanVersion =
     (let v = (case spartanVersion of None \<Rightarrow> ''latest'' | Some s \<Rightarrow> if s = [] then ''latest'' else s);
          w = w\<lparr>currentVersion := Some v\<rparr>
      in case ensureCacheDir w of
           (Inl e, w) \<Rightarrow> (Inl e, w)
         | (Inr u, w) \<Rightarrow>
             (case loadMetadata w of
                (Inl e, w) \<Rightarrow> (Inl e, w)
              | (Inr u, w) \<Rightarrow> (Inr v, w)))"

record cache_result =
  data :: json
  cached :: bool
  stale :: bool
  cachedAt :: "json option"
  version :: string

definition cache_miss :: "string \<Rightarrow> cache_result" where
  "cache_miss v = \<lparr>data = JNull, cached = False, stale = False, cachedAt = None, version = v\<rparr>"

text \<open>\<open>cacheAge > ttlHours * 60 * 60 * 1000\<close>, false when either side is NaN.\<close>

definition isStale :: "int option \<Rightarrow> int option \<Rightarrow> bool" where
  "isStale cacheAge ttlHours =
     (case (cacheAge, ttlHours) of
        (Some a, Some h) \<Rightarrow> a > h * 60 * 60 * 1000
      | _ \<Rightarrow> False)"

text \<open>\<open>dataType\<close> is \<open>None\<close> when the caller leaves it out; it then defaults to \<open>"full"\<close>.\<close>

definition getComponent :: "world \<Rightarrow> string \<Rightarrow> string option \<Rightarrow> js_error + cache_result" where
  "getComponent w componentName dataTypeArg =
     (let dataType = (case dataTypeArg of None \<Rightarrow> ''full'' | Some d \<Rightarrow> d) in
      case currentVersion w of
        None \<Rightarrow> Inl no_version
      | Some v \<Rightarrow>
          (case read_at w (componentFile w v componentName) of
             Some componentData \<Rightarrow>
               (case get_field componentData ''cachedAt'' of
                  Inl e \<Rightarrow> Inr (cache_miss v)
                | Inr at \<Rightarrow>
                    (let ttlHours = env_number (env_ttl_hours w) 24;
                         cacheAge = map_option (\<lambda>t. clock w - t) (date_ms at);
                         field = (case get_field componentData dataType of Inl e \<Rightarrow> None | Inr f \<Rightarrow> f)
                     in Inr \<lparr>data = (case field of
                                       None \<Rightarrow> componentData
                                     | Some x \<Rightarrow> if truthy x then x else componentData),
                             cached = True,
                             stale = isStale cacheAge ttlHours,
                             cachedAt = at,
                             version = v\<rparr>))
           | None \<Rightarrow> Inr (cache_miss v)))"

text \<open>\<open>{...data, componentName, version, cachedAt: new Date().toISOString()}\<close>\<close>

definition componentEntry :: "world \<Rightarrow> string \<Rightarrow> string \<Rightarrow> (string \<times> json) list \<Rightarrow> (string \<times> json) list" where
  "componentEntry w v componentName payload =
     AList.update ''cachedAt'' (JIso (clock w))
       (AList.update ''version'' (JStr v)
         (AList.update ''componentName'' (JStr componentName) payload))"

text \<open>
  The two statements that update the metadata in memory,
  \<open>this.cacheMetadata[field][key] = entry\<close> and \<open>this.cacheMetadata.lastUpdated = ...\<close>,
  in a module, which is strict code: writing a property of a primitive value throws.
\<close>

definition quoted :: "string \<Rightarrow> string" where
  "quoted s = [CHR 0x27] @ s @ [CHR 0x27]"

definition primitive_text :: "world \<Rightarrow> json \<Rightarrow> string" where
  "primitive_text w x =
     (case x of
        JBool b \<Rightarrow> ''boolean '' @ quoted (if b then ''true'' else ''false'')
      | JNum n \<Rightarrow> ''number '' @ quoted ((if n < 0 then ''-'' else []) @ digits (nat \<bar>n\<bar>))
      | JStr s \<Rightarrow> ''string '' @ quoted s
      | JIso t \<Rightarrow> ''string '' @ quoted (toISOString w t)
      | _ \<Rightarrow> [])"

definition metadata_put :: "world \<Rightarrow> string \<Rightarrow> string \<Rightarrow> json \<Rightarrow> js_error + json" where
  "metadata_put w field key entry =
     (case cacheMetadata w of
        JNull \<Rightarrow> Inl (TypeError (''Cannot read properties of null (reading '' @ quoted field @ '')''))
      | JObj fs \<Rightarrow>
          (case map_of fs field of
             None \<Rightarrow> Inl (TypeError (''Cannot set properties of undefined (setting '' @ quoted key @ '')''))
           | Some JNull \<Rightarrow> Inl (TypeError (''Cannot set properties of null (setting '' @ quoted key @ '')''))
           | Some (JObj cs) \<Rightarrow>
               Inr (JObj (AList.update ''lastUpdated'' (JIso (clock w))
                            (AList.update field (JObj (obj_put key entry cs)) fs)))
           | Some (JArr xs) \<Rightarrow>
               Inr (JObj (AList.update ''lastUpdated'' (JIso (clock w))
                            (AList.update field (JArr (arr_put key entry xs)) fs)))
           | Some x \<Rightarrow>
               Inl (TypeError (''Cannot create property '' @ quoted key @ '' on '' @ primitive_text w x)))
      | _ \<Rightarrow> Inl (TypeError (''Cannot set properties of undefined (setting '' @ quoted key @ '')'')))"

text \<open>
  \<open>sz\<close> stands for \<open>JSON.stringify(cacheEntry).length\<close>. The two reads of the clock
  return the same millisecond.
\<close>

definition setComponent ::
  "(json \<Rightarrow> nat) \<Rightarrow> world \<Rightarrow> string \<Rightarrow> (string \<times> json) list \<Rightarrow> (js_error + unit) \<times> world" where
  "setComponent sz w componentName payload =
     (case currentVersion w of
        None \<Rightarrow> (Inl no_version, w)
      | Some v \<Rightarrow>
          (let cacheEntry = componentEntry w v componentName payload
           in case write_at w (componentFile w v componentName) (JObj cacheEntry) of
                (Inl e, w) \<Rightarrow> (Inl e, w)
              | (Inr u, w) \<Rightarrow>
                  (case metadata_put w ''components'' componentName
                          (JObj [(''cachedAt'', JIso (clock w)),
                                 (''size'', JNum (int (sz (JObj cacheEntry))))]) of
                     Inl e \<Rightarrow> (Inl e, w)
                   | Inr md \<Rightarrow> saveMetadata (w\<lparr>cacheMetadata := md\<rparr>))))"

definition setDocs :: "(json \<Rightarrow> nat) \<Rightarrow> world \<Rightarrow> string \<Rightarrow> string \<Rightarrow> (js_error + unit) \<times> world" where
  "setDocs sz w topic content =
     (case currentVersion w of
        None \<Rightarrow> (Inl no_version, w)
      | Some v \<Rightarrow>
          (let cacheEntry =
                 [(''topic'', JStr topic), (''content'', JStr content), (''version'', JStr v),
                  (''cachedAt'', JIso (clock w))]
           in case write_at w (docsFile w v topic) (JObj cacheEntry) of
                (Inl e, w) \<Rightarrow> (Inl e, w)
              | (Inr u, w) \<Rightarrow>
                  (case metadata_put w ''docs'' topic
                          (JObj [(''cachedAt'', JIso (clock w)),
                                 (''size'', JNum (int (sz (JObj cacheEntry))))]) of
                     Inl e \<Rightarrow> (Inl e, w)
                   | Inr md \<Rightarrow> saveMetadata (w\<lparr>cacheMetadata := md\<rparr>))))"

section \<open>Cache warmup\<close>


definition SPARTAN_COMPONENTS_BASE :: string where
  "SPARTAN_COMPONENTS_BASE = ''https://www.spartan.ng/components''"






















section \<open>Notions used in the statements\<close>


text \<open>
  An entry \<open>e\<close> of the metadata and the file \<open>fp\<close> it refers to agree: the file is not
  \<open>metadata.json\<close>, it holds an object, and the \<open>cachedAt\<close> of the two are equal.
\<close>

definition entry_matches :: "world \<Rightarrow> js_error + path \<Rightarrow> js_error + path \<Rightarrow> json \<Rightarrow> bool" where
  "entry_matches w meta fp e =
     (fp \<noteq> meta \<and>
      (case read_at w fp of
         Some (JObj es) \<Rightarrow>
           (case map_of es ''cachedAt'' of
              Some t \<Rightarrow> get_field e ''cachedAt'' = Inr (Some t)
            | None \<Rightarrow> False)
       | _ \<Rightarrow> False))"

text \<open>
  The metadata in memory has its two maps, each with every key once, and every key of
  them names an entry file of the active version that is on disk with the same
  \<open>cachedAt\<close>.
\<close>

definition tracked :: "world \<Rightarrow> bool" where
  "tracked w =
     (case currentVersion w of
        None \<Rightarrow> False
      | Some v \<Rightarrow>
          (case cacheMetadata w of
             JObj fs \<Rightarrow>
               (case (map_of fs ''components'', map_of fs ''docs'') of
                  (Some (JObj cs), Some (JObj ds)) \<Rightarrow>
                    distinct (map fst cs) \<and> distinct (map fst ds)
                    \<and> list_all (\<lambda>(k, e). entry_matches w (metadataPath w v) (componentFile w v k) e) cs
                    \<and> list_all (\<lambda>(t, e). entry_matches w (metadataPath w v) (docsFile w v t) e) ds
                | _ \<Rightarrow> False)
           | _ \<Rightarrow> False))"

text \<open>The \<open>metadata.json\<close> of the active version holds the metadata in memory.\<close>

definition persisted :: "world \<Rightarrow> bool" where
  "persisted w =
     (case currentVersion w of
        None \<Rightarrow> False
      | Some v \<Rightarrow> read_at w (metadataPath w v) = Some (cacheMetadata w))"

text \<open>
  The files that the metadata in memory refers to: for every key of the map
  \<open>components\<close>, and for every key of the map \<open>docs\<close>, the key with its entry file.
\<close>

definition referenced :: "world \<Rightarrow> string \<Rightarrow> (string \<Rightarrow> js_error + path) \<Rightarrow> (string \<times> (js_error + path)) list" where
  "referenced w field file_of =
     (case cacheMetadata w of
        JObj fs \<Rightarrow> (case map_of fs field of
                     Some (JObj cs) \<Rightarrow> map (\<lambda>(k, e). (k, file_of k)) cs
                   | _ \<Rightarrow> [])
      | _ \<Rightarrow> [])"

text \<open>
  The entry file \<open>fp\<close> written for the key \<open>key\<close> of the map \<open>field\<close> is the file of
  nothing else: not \<open>metadata.json\<close>, not the file of another key of the same map, and
  not a file of the other map.
\<close>

definition own_file :: "world \<Rightarrow> string \<Rightarrow> string \<Rightarrow> string \<Rightarrow> js_error + path \<Rightarrow> bool" where
  "own_file w v field key fp =
     (fp \<noteq> metadataPath w v
      \<and> list_all (\<lambda>(k, p). (field = ''components'' \<and> k = key) \<or> p \<noteq> fp)
          (referenced w ''components'' (componentFile w v))
      \<and> list_all (\<lambda>(t, p). (field = ''docs'' \<and> t = key) \<or> p \<noteq> fp)
          (referenced w ''docs'' (docsFile w v)))"


text \<open>
  A name that is a single path segment: without \<open>/\<close> and without a null byte. The file
  \<open>name.json\<close> then lies in the directory it is joined to.
\<close>

definition plain_name :: "string \<Rightarrow> bool" where
  "plain_name s = (CHR ''/'' \<notin> set s \<and> CHR 0x00 \<notin> set s)"

text \<open>
  A small world for concrete runs: the page of component \<open>a\<close> is served, every other
  request is refused; the project lies in \<open>/app\<close>, the cache directory does not exist yet
  and the manager is not initialized.
\<close>

definition example_network :: "string \<Rightarrow> fetch_outcome" where
  "example_network url =
     (if url = SPARTAN_COMPONENTS_BASE @ ''/a''
      then Resolved \<lparr>status = 200, statusText = ''OK'', body = ''<h1>X</h1>''\<rparr>
      else Rejected ''fetch failed'')"

definition fresh_world :: world where
  "fresh_world =
     \<lparr>clock = 1700000000000, env_ttl_hours = EnvUnset, env_ttl_ms = EnvUnset,
      network = example_network, requests = [], responseCache = Map.empty,
      cacheDir = [''app'', ''cache''], currentVersion = None, cacheMetadata = JNull,
      files = \<lparr>dirs = {[], [''app'']}, store = Map.empty\<rparr>,
      progress = [], inspect = quoted, toISOString = (\<lambda>t. [])\<rparr>"

definition ready_world :: world where
  "ready_world = snd (initialize fresh_world None)"

definition button_payload :: "(string \<times> json) list" where
  "button_payload = [(''html'', JStr ''<h1>X</h1>'')]"

definition button_world :: world where
  "button_world = snd (setComponent size ready_world ''button'' button_payload)"

definition full_payload :: "(string \<times> json) list" where
  "full_payload =
     [(''html'', JStr ''<h1>X</h1>''),
      (''full'', JObj [(''html'', JStr ''<h1>X</h1>''), (''url'', JStr ''https://www.spartan.ng/components/a'')])]"

definition expired_world :: world where
  "expired_world =
     fresh_world\<lparr>responseCache :=
       [SPARTAN_COMPONENTS_BASE @ ''/a::html'' \<mapsto> (''<h1>old</h1>'', 1700000000000 - 300000)]\<rparr>"

text \<open>The plain text that pushMatchText computes from a match.\<close>

definition code_of :: "string \<Rightarrow> string" where
  "code_of s = htmlToText (strip_last_tag (strip_first_tag s))"

text \<open>The matches that the two loops of extractCodeBlocks visit, in their order.\<close>

definition blockMatches :: "string \<Rightarrow> string list" where
  "blockMatches html = match_all pre_code_m html @ match_all code_m html"

definition code_page :: string where
  "code_page = ''<p>x</p><pre><code>a\<newline>b\<newline>c</code></pre><code>import x</code>''"

text \<open>
  The page has a heading \<open>h1\<close> to \<open>h6\<close> whose content is exactly the title \<open>t\<close>, up to
  the case of the letters; \<open>t\<close> is given in lower case.
\<close>

definition has_heading :: "string \<Rightarrow> string \<Rightarrow> bool" where
  "has_heading t html =
     (\<exists>pre h l attrs t' h' l' post.
        html = pre @ [CHR ''<'', h, l] @ attrs @ [CHR ''>''] @ t' @ [CHR ''<'', CHR ''/'', h', l', CHR ''>''] @ post
        \<and> lowerc h = CHR ''h'' \<and> is_level l \<and> CHR ''>'' \<notin> set attrs
        \<and> map lowerc t' = t \<and> lowerc h' = CHR ''h'' \<and> is_level l')"

text \<open>A block whose lines are wrapped in \<open>code\<close> elements of their own.\<close>

definition lines_page :: string where
  "lines_page = ''<pre><code>a</code>\<newline><code>b</code>\<newline><code>c</code></pre>''"



text \<open>
  An element of a page as the patterns of htmlToText see it: the opening \<open><name\<close> in
  any case of the letters, what stands between it and the closing tag (the rest of the
  opening tag and the content), and the closing tag \<open></name>\<close>, the first one after the
  opening.
\<close>

type_synonym block = "string \<times> string \<times> string"

definition is_block :: "string \<Rightarrow> block \<Rightarrow> bool" where
  "is_block nm b =
     (case b of (opn, bdy, cls) \<Rightarrow>
        map lowerc opn = CHR ''<'' # nm \<and> map lowerc cls = ''</'' @ nm @ ''>''
        \<and> find_idx (ci_prefix (''</'' @ nm @ ''>'')) bdy = None)"

text \<open>A page: a text, then blocks, each followed by a text.\<close>

fun with_blocks :: "string \<Rightarrow> (block \<times> string) list \<Rightarrow> string" where
  "with_blocks t [] = t"
| "with_blocks t (((opn, bdy, cls), t') # bs) = t @ opn @ bdy @ cls @ with_blocks t' bs"

text \<open>The texts of such a page, without the blocks.\<close>

definition texts :: "string \<Rightarrow> ('a \<times> string) list \<Rightarrow> string list" where
  "texts t bs = t # map snd bs"

text \<open>No \<open><name\<close>, in any case of the letters, in a text.\<close>

definition no_open :: "string \<Rightarrow> string \<Rightarrow> bool" where
  "no_open nm t = (find_idx (ci_prefix (CHR ''<'' # nm)) t = None)"

text \<open>
  Markup in pieces: a text without an opening bracket, or a tag \<open><inner>\<close>. The patterns
  of utils.js all begin at an opening bracket and, but for the lazy ones, end at the
  first closing bracket, so on a page made of such pieces they see one tag at a time.
\<close>

datatype piece = Text string | Tag string

fun render_piece :: "piece \<Rightarrow> string" where
  "render_piece (Text t) = t"
| "render_piece (Tag i) = CHR ''<'' # i @ ''>''"

definition render :: "piece list \<Rightarrow> string" where
  "render ps = concat (map render_piece ps)"

fun well_formed :: "piece \<Rightarrow> bool" where
  "well_formed (Text t) = (CHR ''<'' \<notin> set t)"
| "well_formed (Tag i) = (i \<noteq> [] \<and> CHR ''<'' \<notin> set i \<and> CHR ''>'' \<notin> set i)"

text \<open>The tag begins with the name \<open>nm\<close>; the tag is exactly \<open>nm\<close>. Both up to the case of the letters.\<close>

fun opens :: "string \<Rightarrow> piece \<Rightarrow> bool" where
  "opens nm (Text t) = False"
| "opens nm (Tag i) = ci_prefix nm i"

fun is_tag :: "string \<Rightarrow> piece \<Rightarrow> bool" where
  "is_tag nm (Text t) = False"
| "is_tag nm (Tag i) = (map lowerc i = nm)"

text \<open>Well-formed pieces without the opening of a script or style element.\<close>

definition markup :: "piece list \<Rightarrow> bool" where
  "markup ps = list_all (\<lambda>p. well_formed p \<and> \<not> opens ''script'' p \<and> \<not> opens ''style'' p) ps"

text \<open>
  The tags that stand for a line break: the closing tags \<open></p>\<close>, \<open></div>\<close>, \<open></section>\<close>,
  \<open></article>\<close>, \<open></li>\<close>, \<open></h1>\<close> to \<open></h6>\<close>, \<open></br>\<close>, \<open></pre>\<close>, and the
  self-closed \<open><br/>\<close> and \<open><hr/>\<close>, with white space allowed before the slash.
\<close>

definition closes :: "string \<Rightarrow> bool" where
  "closes i =
     (case i of
        [] \<Rightarrow> False
      | s # r \<Rightarrow> s = CHR ''/'' \<and>
          (map lowerc r \<in> set [''p'', ''div'', ''section'', ''article'', ''li'', ''br'', ''pre'']
           \<or> (case r of [h, l] \<Rightarrow> lowerc h = CHR ''h'' \<and> is_level l | _ \<Rightarrow> False)))"

definition breaks :: "string \<Rightarrow> bool" where
  "breaks i = ((ci_prefix ''br'' i \<or> ci_prefix ''hr'' i) \<and> dropWhile is_ws (drop 2 i) = ''/'')"

text \<open>
  The plain text of markup: the texts, a line feed for each tag that stands for a line
  break, nothing for any other tag; then the entities are decoded, runs of three or more
  line feeds become two, and the white space at both ends is removed.
\<close>

fun piece_text :: "piece \<Rightarrow> string" where
  "piece_text (Text t) = t"
| "piece_text (Tag i) = (if closes i \<or> breaks i then [CHR 0x0A] else [])"

definition text_of :: "piece list \<Rightarrow> string" where
  "text_of ps =
     trim (replace_all newlines_m [CHR 0x0A, CHR 0x0A] (decoded (concat (map piece_text ps))))"

text \<open>
  A text that the steps of text_of leave as it is: no ampersand, no run of three line
  feeds, no white space at either end.
\<close>

definition plain :: "string \<Rightarrow> bool" where
  "plain t =
     (CHR ''&'' \<notin> set t \<and> find_idx (cs_prefix [CHR 0x0A, CHR 0x0A, CHR 0x0A]) t = None
      \<and> (t = [] \<or> \<not> is_ws (hd t) \<and> \<not> is_ws (last t)))"

text \<open>
  The number of non-blank lines of a text: a line is counted at its first character that
  is not white space. The lines are separated by line feeds.
\<close>

fun count_lines :: "bool \<Rightarrow> string \<Rightarrow> nat" where
  "count_lines seen [] = 0"
| "count_lines seen (c # cs) =
     (if c = CHR 0x0A then count_lines False cs
      else if \<not> is_ws c \<and> \<not> seen then Suc (count_lines True cs)
      else count_lines seen cs)"

definition non_blank_lines :: "string \<Rightarrow> nat" where
  "non_blank_lines s = count_lines False s"

text \<open>
  A code block of a page: a \<open>code\<close> element, given by the inner of its opening tag, its
  content and the inner of its closing tag, and, when it is wrapped in a \<open>pre\<close> element
  that holds nothing else, the inner of the opening and of the closing tag of that.
\<close>

record code_block =
  cb_wrapper :: "(string \<times> string) option"
  cb_open :: string
  cb_body :: "piece list"
  cb_close :: string

definition code_element :: "code_block \<Rightarrow> string" where
  "code_element b = render (Tag (cb_open b) # cb_body b @ [Tag (cb_close b)])"

definition block_html :: "code_block \<Rightarrow> string" where
  "block_html b =
     (case cb_wrapper b of
        None \<Rightarrow> code_element b
      | Some (op, cl) \<Rightarrow> render [Tag op] @ code_element b @ render [Tag cl])"

definition wrapped :: "code_block \<Rightarrow> bool" where
  "wrapped b = (cb_wrapper b \<noteq> None)"

text \<open>
  The tags are what they are said to be, and the content is markup with no closing
  \<open></code>\<close> and no opening \<open><pre\<close> in it.
\<close>

definition block_ok :: "code_block \<Rightarrow> bool" where
  "block_ok b =
     (well_formed (Tag (cb_open b)) \<and> ci_prefix ''code'' (cb_open b)
      \<and> map lowerc (cb_close b) = ''/code''
      \<and> markup (cb_body b)
      \<and> list_all (\<lambda>p. \<not> is_tag ''/code'' p \<and> \<not> opens ''pre'' p) (cb_body b)
      \<and> (case cb_wrapper b of
           None \<Rightarrow> True
         | Some (op, cl) \<Rightarrow> well_formed (Tag op) \<and> ci_prefix ''pre'' op \<and> map lowerc cl = ''/pre''))"

text \<open>A page: a text, then code blocks, each followed by a text.\<close>

fun with_code :: "string \<Rightarrow> (code_block \<times> string) list \<Rightarrow> string" where
  "with_code t [] = t"
| "with_code t ((b, t') # bs) = t @ block_html b @ with_code t' bs"

text \<open>The text of a code block.\<close>

definition block_text :: "code_block \<Rightarrow> string" where
  "block_text b = text_of (cb_body b)"

text \<open>A block whose code has a comparison in it, the bracket written as it is.\<close>

definition bracket_page :: string where
  "bracket_page = ''<pre><code>if (a < b) {\<newline>  x();\<newline>}</code></pre>''"

text \<open>
  A page with a wrapped block whose code has a highlighted word, an entity and blank
  lines, an import line, a snippet of two lines and a blank one, and a plain block.
\<close>

definition sample_blocks :: "(code_block \<times> string) list" where
  "sample_blocks =
     [(\<lparr>cb_wrapper = Some (''pre class=a'', ''/pre''), cb_open = ''code'',
         cb_body = [Text ''a\<newline>\<newline>'', Tag ''span'', Text ''b'', Tag ''/span'',
                    Text '' &amp; c\<newline>   \<newline>d''],
         cb_close = ''/code''\<rparr>, ''<p>y</p>''),
      (\<lparr>cb_wrapper = None, cb_open = ''code'', cb_body = [Text ''import x''], cb_close = ''/code''\<rparr>, []),
      (\<lparr>cb_wrapper = None, cb_open = ''code'', cb_body = [Text ''x\<newline>\<newline>y''], cb_close = ''/CODE''\<rparr>, '' and ''),
      (\<lparr>cb_wrapper = None, cb_open = ''CODE id=z'', cb_body = [Text ''one\<newline>two\<newline>three''],
         cb_close = ''/code''\<rparr>, ''.'')]"

definition sample_page :: string where
  "sample_page = with_code ''<p>x</p>'' sample_blocks"

text \<open>
  A page with two wrapped blocks, the first with a highlighted word, and an inline
  \<open>code\<close> element between them.
\<close>

definition twice_blocks :: "(code_block \<times> string) list" where
  "twice_blocks =
     [(\<lparr>cb_wrapper = Some (''pre'', ''/pre''), cb_open = ''code class=ts'',
         cb_body = [Tag ''span class=k'', Text ''const'', Tag ''/span'', Text '' a = 1;\<newline>b\<newline>c''],
         cb_close = ''/code''\<rparr>, ''<p>Use ''),
      (\<lparr>cb_wrapper = None, cb_open = ''code'', cb_body = [Text ''x''], cb_close = ''/code''\<rparr>, ''</p>''),
      (\<lparr>cb_wrapper = Some (''PRE'', ''/PRE''), cb_open = ''code'', cb_body = [Text ''d\<newline>e\<newline>f''],
         cb_close = ''/code''\<rparr>, [])]"

definition twice_page :: string where
  "twice_page = with_code ''<p>x</p>'' twice_blocks"
section \<open>Properties of the disk cache\<close>

lemma resolve_append: "resolve acc (xs @ ys) = resolve (resolve acc xs) ys"
  by (induction xs arbitrary: acc) simp_all

lemma segments_plain: "CHR ''/'' \<notin> set s \<Longrightarrow> segments cur s = [cur @ s]"
  by (induction s arbitrary: cur) auto

lemma path_join_file:
  assumes "CHR ''/'' \<notin> set nm"
  shows "path_join base (parts @ [nm @ ''.json'']) = path_join base parts @ [nm @ ''.json'']"
proof -
  have s: "segments [] (nm @ ''.json'') = [nm @ ''.json'']"
    using segments_plain[of "nm @ ''.json''" "[]"] assms by simp
  have n: "nm @ ''.json'' \<noteq> ''.''" "nm @ ''.json'' \<noteq> ''..''"
    by (cases nm; simp)+
  show ?thesis unfolding path_join_def by (simp add: resolve_append s n)
qed




lemma docsFile_plain:
  assumes "plain_name nm" "CHR 0x00 \<notin> set v"
  shows "docsFile w v nm = Inr (path_join (cacheDir w) [v, ''docs''] @ [nm @ ''.json''])"
  using assms path_join_file[of nm "cacheDir w" "[v, ''docs'']"]
  by (simp add: docsFile_def fs_path_def checked_def plain_name_def)


lemma paths_update [simp]:
  "metadataPath (w\<lparr>files := d\<rparr>) = metadataPath w"
  "metadataPath (w\<lparr>cacheMetadata := md\<rparr>) = metadataPath w"
  "metadataPath (w\<lparr>clock := t\<rparr>) = metadataPath w"
  "metadataPath (w\<lparr>requests := rs\<rparr>) = metadataPath w"
  "metadataPath (w\<lparr>progress := ps\<rparr>) = metadataPath w"
  "componentFile (w\<lparr>files := d\<rparr>) = componentFile w"
  "componentFile (w\<lparr>cacheMetadata := md\<rparr>) = componentFile w"
  "componentFile (w\<lparr>clock := t\<rparr>) = componentFile w"
  "componentFile (w\<lparr>requests := rs\<rparr>) = componentFile w"
  "componentFile (w\<lparr>progress := ps\<rparr>) = componentFile w"
  "docsFile (w\<lparr>files := d\<rparr>) = docsFile w"
  "docsFile (w\<lparr>cacheMetadata := md\<rparr>) = docsFile w"
  "docsFile (w\<lparr>clock := t\<rparr>) = docsFile w"
  "docsFile (w\<lparr>requests := rs\<rparr>) = docsFile w"
  "docsFile (w\<lparr>progress := ps\<rparr>) = docsFile w"
  by (simp_all add: componentFile_def docsFile_def metadataPath_def fs_path_def checked_def fun_eq_iff)

lemma read_at_update [simp]:
  "read_at (w\<lparr>clock := t\<rparr>) = read_at w"
  "read_at (w\<lparr>requests := rs\<rparr>) = read_at w"
  "read_at (w\<lparr>progress := ps\<rparr>) = read_at w"
  "read_at (w\<lparr>cacheMetadata := md\<rparr>) = read_at w"
  by (simp_all add: read_at_def fun_eq_iff split: sum.splits)

lemma metadata_put_frame:
  "cacheMetadata w' = cacheMetadata w \<Longrightarrow> clock w' = clock w \<Longrightarrow> toISOString w' = toISOString w \<Longrightarrow>
     metadata_put w' = metadata_put w"
proof -
  assume a: "cacheMetadata w' = cacheMetadata w" "clock w' = clock w" "toISOString w' = toISOString w"
  have "primitive_text w' = primitive_text w"
    using a(3) by (auto simp: primitive_text_def fun_eq_iff split: json.splits)
  then show ?thesis using a(1,2)
    by (intro ext) (simp add: metadata_put_def split: json.splits option.splits)
qed

lemma write_at_ok:
  assumes "write_at w fp j = (Inr u, w')"
  shows "\<exists>p. fp = Inr p \<and> p \<notin> dirs (files w) \<and> butlast p \<in> dirs (files w)
     \<and> w' = w\<lparr>files := (files w)\<lparr>store := (store (files w))(p \<mapsto> Json j)\<rparr>\<rparr>"
  using assms by (auto simp: write_at_def writeFile_def split: sum.splits if_splits)

lemma write_at_succeeds:
  assumes "p \<notin> dirs (files w)" "butlast p \<in> dirs (files w)"
  shows "write_at w (Inr p) j = (Inr (), w\<lparr>files := (files w)\<lparr>store := (store (files w))(p \<mapsto> Json j)\<rparr>\<rparr>)"
  using assms by (simp add: write_at_def writeFile_def)

lemma setComponent_ok:
  assumes "setComponent sz w key payload = (Inr u, w')"
  shows "\<exists>v p m md. currentVersion w = Some v \<and> componentFile w v key = Inr p
     \<and> metadataPath w v = Inr m \<and> p \<notin> dirs (files w) \<and> m \<notin> dirs (files w)
     \<and> metadata_put w ''components'' key
          (JObj [(''cachedAt'', JIso (clock w)),
                 (''size'', JNum (int (sz (JObj (componentEntry w v key payload)))))]) = Inr md
     \<and> w' = w\<lparr>cacheMetadata := md,
             files := (files w)\<lparr>store := (store (files w))
                        (p \<mapsto> Json (JObj (componentEntry w v key payload)), m \<mapsto> Json md)\<rparr>\<rparr>"
proof -
  from assms obtain v where v: "currentVersion w = Some v"
    by (auto simp: setComponent_def split: option.splits)
  let ?entry = "componentEntry w v key payload"
  let ?e = "JObj [(''cachedAt'', JIso (clock w)), (''size'', JNum (int (sz (JObj ?entry))))]"
  obtain r1 w1 where w1: "write_at w (componentFile w v key) (JObj ?entry) = (r1, w1)"
    by (cases "write_at w (componentFile w v key) (JObj ?entry)")
  from assms v w1 obtain u1 where r1: "r1 = Inr u1"
    by (cases r1) (auto simp: setComponent_def Let_def)
  from write_at_ok[OF w1[unfolded r1]] obtain p where
    p: "componentFile w v key = Inr p" "p \<notin> dirs (files w)"
    and w1': "w1 = w\<lparr>files := (files w)\<lparr>store := (store (files w))(p \<mapsto> Json (JObj ?entry))\<rparr>\<rparr>"
    by blast
  have mp: "metadata_put w1 = metadata_put w" using w1' by (intro metadata_put_frame) simp_all
  have c1: "clock w1 = clock w" using w1' by simp
  from assms v w1 r1 obtain md where
    md: "metadata_put w ''components'' key ?e = Inr md"
    and s: "saveMetadata (w1\<lparr>cacheMetadata := md\<rparr>) = (Inr u, w')"
    by (cases "metadata_put w ''components'' key ?e")
       (auto simp: setComponent_def Let_def mp c1)
  from s have "write_at (w1\<lparr>cacheMetadata := md\<rparr>) (metadataPath w v) md = (Inr u, w')"
    using v w1' by (simp add: saveMetadata_def)
  from write_at_ok[OF this] obtain m where
    m: "metadataPath w v = Inr m" "m \<notin> dirs (files w)"
    and w': "w' = (w1\<lparr>cacheMetadata := md\<rparr>)\<lparr>files := (files (w1\<lparr>cacheMetadata := md\<rparr>))
                \<lparr>store := (store (files (w1\<lparr>cacheMetadata := md\<rparr>)))(m \<mapsto> Json md)\<rparr>\<rparr>"
    using w1' by auto
  have "w' = w\<lparr>cacheMetadata := md,
             files := (files w)\<lparr>store := (store (files w))
                        (p \<mapsto> Json (JObj ?entry), m \<mapsto> Json md)\<rparr>\<rparr>"
    unfolding w' w1' by simp
  then show ?thesis using v p m md by blast
qed

lemma setDocs_ok:
  assumes "setDocs sz w topic content = (Inr u, w')"
  shows "\<exists>v p m md. currentVersion w = Some v \<and> docsFile w v topic = Inr p
     \<and> metadataPath w v = Inr m \<and> p \<notin> dirs (files w) \<and> m \<notin> dirs (files w)
     \<and> metadata_put w ''docs'' topic
          (JObj [(''cachedAt'', JIso (clock w)),
                 (''size'', JNum (int (sz (JObj [(''topic'', JStr topic), (''content'', JStr content),
                    (''version'', JStr v), (''cachedAt'', JIso (clock w))]))))]) = Inr md
     \<and> w' = w\<lparr>cacheMetadata := md,
             files := (files w)\<lparr>store := (store (files w))
                        (p \<mapsto> Json (JObj [(''topic'', JStr topic), (''content'', JStr content),
                    (''version'', JStr v), (''cachedAt'', JIso (clock w))]), m \<mapsto> Json md)\<rparr>\<rparr>"
proof -
  from assms obtain v where v: "currentVersion w = Some v"
    by (auto simp: setDocs_def split: option.splits)
  let ?entry = "[(''topic'', JStr topic), (''content'', JStr content),
                    (''version'', JStr v), (''cachedAt'', JIso (clock w))]"
  let ?e = "JObj [(''cachedAt'', JIso (clock w)), (''size'', JNum (int (sz (JObj ?entry))))]"
  obtain r1 w1 where w1: "write_at w (docsFile w v topic) (JObj ?entry) = (r1, w1)"
    by (cases "write_at w (docsFile w v topic) (JObj ?entry)")
  from assms v w1 obtain u1 where r1: "r1 = Inr u1"
    by (cases r1) (auto simp: setDocs_def Let_def)
  from write_at_ok[OF w1[unfolded r1]] obtain p where
    p: "docsFile w v topic = Inr p" "p \<notin> dirs (files w)"
    and w1': "w1 = w\<lparr>files := (files w)\<lparr>store := (store (files w))(p \<mapsto> Json (JObj ?entry))\<rparr>\<rparr>"
    by blast
  have mp: "metadata_put w1 = metadata_put w" using w1' by (intro metadata_put_frame) simp_all
  have c1: "clock w1 = clock w" using w1' by simp
  from assms v w1 r1 obtain md where
    md: "metadata_put w ''docs'' topic ?e = Inr md"
    and s: "saveMetadata (w1\<lparr>cacheMetadata := md\<rparr>) = (Inr u, w')"
    by (cases "metadata_put w ''docs'' topic ?e")
       (auto simp: setDocs_def Let_def mp c1)
  from s have "write_at (w1\<lparr>cacheMetadata := md\<rparr>) (metadataPath w v) md = (Inr u, w')"
    using v w1' by (simp add: saveMetadata_def)
  from write_at_ok[OF this] obtain m where
    m: "metadataPath w v = Inr m" "m \<notin> dirs (files w)"
    and w': "w' = (w1\<lparr>cacheMetadata := md\<rparr>)\<lparr>files := (files (w1\<lparr>cacheMetadata := md\<rparr>))
                \<lparr>store := (store (files (w1\<lparr>cacheMetadata := md\<rparr>)))(m \<mapsto> Json md)\<rparr>\<rparr>"
    using w1' by auto
  have "w' = w\<lparr>cacheMetadata := md,
             files := (files w)\<lparr>store := (store (files w))
                        (p \<mapsto> Json (JObj ?entry), m \<mapsto> Json md)\<rparr>\<rparr>"
    unfolding w' w1' by simp
  then show ?thesis using v p m md by blast
qed


lemma setComponent_eq:
  assumes v: "currentVersion w = Some v"
    and p: "componentFile w v key = Inr p" "p \<notin> dirs (files w)" "butlast p \<in> dirs (files w)"
    and m: "metadataPath w v = Inr m" "m \<notin> dirs (files w)" "butlast m \<in> dirs (files w)"
    and put: "metadata_put w ''components'' key
          (JObj [(''cachedAt'', JIso (clock w)),
                 (''size'', JNum (int (sz (JObj (componentEntry w v key payload)))))]) = Inr md"
  shows "setComponent sz w key payload =
     (Inr (), w\<lparr>cacheMetadata := md,
             files := (files w)\<lparr>store := (store (files w))
                        (p \<mapsto> Json (JObj (componentEntry w v key payload)), m \<mapsto> Json md)\<rparr>\<rparr>)"
proof -
  let ?entry = "componentEntry w v key payload"
  let ?w1 = "w\<lparr>files := (files w)\<lparr>store := (store (files w))(p \<mapsto> Json (JObj ?entry))\<rparr>\<rparr>"
  have 1: "write_at w (componentFile w v key) (JObj ?entry) = (Inr (), ?w1)"
    unfolding p(1) using p(2,3) by (rule write_at_succeeds)
  have mp: "metadata_put ?w1 = metadata_put w" by (intro metadata_put_frame) simp_all
  have 2: "write_at (?w1\<lparr>cacheMetadata := md\<rparr>) (Inr m) md =
      (Inr (), (?w1\<lparr>cacheMetadata := md\<rparr>)\<lparr>files := (files (?w1\<lparr>cacheMetadata := md\<rparr>))
          \<lparr>store := (store (files (?w1\<lparr>cacheMetadata := md\<rparr>)))(m \<mapsto> Json md)\<rparr>\<rparr>)"
    using m(2,3) by (intro write_at_succeeds) simp_all
  show ?thesis
    using v 1 put 2 m(1) by (simp add: setComponent_def Let_def mp saveMetadata_def)
qed

lemma setDocs_eq:
  assumes v: "currentVersion w = Some v"
    and p: "docsFile w v topic = Inr p" "p \<notin> dirs (files w)" "butlast p \<in> dirs (files w)"
    and m: "metadataPath w v = Inr m" "m \<notin> dirs (files w)" "butlast m \<in> dirs (files w)"
    and put: "metadata_put w ''docs'' topic
          (JObj [(''cachedAt'', JIso (clock w)),
                 (''size'', JNum (int (sz (JObj [(''topic'', JStr topic), (''content'', JStr content),
                    (''version'', JStr v), (''cachedAt'', JIso (clock w))]))))]) = Inr md"
  shows "setDocs sz w topic content =
     (Inr (), w\<lparr>cacheMetadata := md,
             files := (files w)\<lparr>store := (store (files w))
                        (p \<mapsto> Json (JObj [(''topic'', JStr topic), (''content'', JStr content),
                    (''version'', JStr v), (''cachedAt'', JIso (clock w))]), m \<mapsto> Json md)\<rparr>\<rparr>)"
proof -
  let ?entry = "[(''topic'', JStr topic), (''content'', JStr content),
                    (''version'', JStr v), (''cachedAt'', JIso (clock w))]"
  let ?w1 = "w\<lparr>files := (files w)\<lparr>store := (store (files w))(p \<mapsto> Json (JObj ?entry))\<rparr>\<rparr>"
  have 1: "write_at w (docsFile w v topic) (JObj ?entry) = (Inr (), ?w1)"
    unfolding p(1) using p(2,3) by (rule write_at_succeeds)
  have mp: "metadata_put ?w1 = metadata_put w" by (intro metadata_put_frame) simp_all
  have 2: "write_at (?w1\<lparr>cacheMetadata := md\<rparr>) (Inr m) md =
      (Inr (), (?w1\<lparr>cacheMetadata := md\<rparr>)\<lparr>files := (files (?w1\<lparr>cacheMetadata := md\<rparr>))
          \<lparr>store := (store (files (?w1\<lparr>cacheMetadata := md\<rparr>)))(m \<mapsto> Json md)\<rparr>\<rparr>)"
    using m(2,3) by (intro write_at_succeeds) simp_all
  show ?thesis
    using v 1 put 2 m(1) by (simp add: setDocs_def Let_def mp saveMetadata_def)
qed

lemma getComponent_hit:
  assumes v: "currentVersion w = Some v"
    and f: "read_at w (componentFile w v key) = Some (JObj fs)"
    and at: "map_of fs ''cachedAt'' = Some (JIso t)"
  shows "getComponent w key dt =
     Inr \<lparr>data = (case map_of fs (case dt of None \<Rightarrow> ''full'' | Some d \<Rightarrow> d) of
                     None \<Rightarrow> JObj fs | Some x \<Rightarrow> if truthy x then x else JObj fs),
          cached = True,
          stale = isStale (Some (clock w - t)) (env_number (env_ttl_hours w) 24),
          cachedAt = Some (JIso t), version = v\<rparr>"
  using v f at by (simp add: getComponent_def get_field_def date_ms_def Let_def)

lemma componentEntry_fields:
  "map_of (componentEntry w v key payload) ''cachedAt'' = Some (JIso (clock w))"
  "map_of (componentEntry w v key payload) ''full'' = map_of payload ''full''"
  by (simp_all add: componentEntry_def update_conv')

lemma ancestors_4:
  "set (ancestors [a, b, c, d]) = {[], [a], [a, b], [a, b, c], [a, b, c, d]}"
  by (auto simp: ancestors_def upt_rec)

lemma ready_world_eq:
  "ready_world =
     fresh_world\<lparr>currentVersion := Some ''latest'',
       cacheMetadata := JObj [(''version'', JStr ''latest''), (''createdAt'', JIso 1700000000000),
         (''lastUpdated'', JIso 1700000000000), (''components'', JObj []), (''docs'', JObj [])],
       files := \<lparr>dirs = {[], [''app''], [''app'', ''cache''], [''app'', ''cache'', ''latest''],
                         [''app'', ''cache'', ''latest'', ''components''],
                         [''app'', ''cache'', ''latest'', ''docs'']},
                 store = [[''app'', ''cache'', ''latest'', ''metadata.json''] \<mapsto>
                   Json (JObj [(''version'', JStr ''latest''), (''createdAt'', JIso 1700000000000),
                     (''lastUpdated'', JIso 1700000000000), (''components'', JObj []),
                     (''docs'', JObj [])])]\<rparr>\<rparr>"
proof -
  show ?thesis
    by (simp add: ready_world_def initialize_def ensureCacheDir_def loadMetadata_def
        saveMetadata_def fresh_world_def Let_def mkdir_at_def mkdir_recursive_def checked_def
        path_join_def is_file_def read_at_def readJson_def metadataPath_def fs_path_def
        write_at_def writeFile_def ancestors_4 insert_commute)
qed


lemma ready_world_facts:
  "currentVersion ready_world = Some ''latest''"
  "clock ready_world = 1700000000000"
  "cacheMetadata ready_world =
     JObj [(''version'', JStr ''latest''), (''createdAt'', JIso 1700000000000),
           (''lastUpdated'', JIso 1700000000000), (''components'', JObj []), (''docs'', JObj [])]"
  "dirs (files ready_world) =
     {[], [''app''], [''app'', ''cache''], [''app'', ''cache'', ''latest''],
      [''app'', ''cache'', ''latest'', ''components''], [''app'', ''cache'', ''latest'', ''docs'']}"
  by (simp_all add: ready_world_eq fresh_world_def)

lemma ready_world_paths:
  "componentFile ready_world ''latest'' ''button'' =
     Inr [''app'', ''cache'', ''latest'', ''components'', ''button.json'']"
  "componentFile ready_world ''latest'' ''./button'' =
     Inr [''app'', ''cache'', ''latest'', ''components'', ''button.json'']"
  "componentFile ready_world ''latest'' ''__proto__'' =
     Inr [''app'', ''cache'', ''latest'', ''components'', ''__proto__.json'']"
  "docsFile ready_world ''latest'' ''theming'' =
     Inr [''app'', ''cache'', ''latest'', ''docs'', ''theming.json'']"
  "metadataPath ready_world ''latest'' = Inr [''app'', ''cache'', ''latest'', ''metadata.json'']"
  by (simp_all add: ready_world_eq fresh_world_def componentFile_def docsFile_def metadataPath_def
        fs_path_def checked_def path_join_def)

lemma metadata_put_obj:
  assumes "cacheMetadata w = JObj fs" "map_of fs field = Some (JObj cs)"
  shows "metadata_put w field key e =
     Inr (JObj (AList.update ''lastUpdated'' (JIso (clock w))
                  (AList.update field (JObj (obj_put key e cs)) fs)))"
  using assms by (simp add: metadata_put_def)

lemma obj_put_first: "k \<noteq> ''__proto__'' \<Longrightarrow> obj_put k e [] = [(k, e)]"
  by (simp add: obj_put_def)

lemma button_world_explicit:
  "setComponent size ready_world ''button'' button_payload = (Inr (), button_world)"
  "button_world = ready_world\<lparr>cacheMetadata :=
        JObj [(''version'', JStr ''latest''), (''createdAt'', JIso 1700000000000),
         (''lastUpdated'', JIso 1700000000000),
         (''components'', JObj [(''button'', JObj [(''cachedAt'', JIso 1700000000000),
            (''size'', JNum (int (size (JObj (componentEntry ready_world ''latest'' ''button''
                                               button_payload)))))])]),
         (''docs'', JObj [])],
      files := (files ready_world)\<lparr>store := (store (files ready_world))
        ([''app'', ''cache'', ''latest'', ''components'', ''button.json''] \<mapsto>
            Json (JObj (componentEntry ready_world ''latest'' ''button'' button_payload)),
         [''app'', ''cache'', ''latest'', ''metadata.json''] \<mapsto>
            Json (JObj [(''version'', JStr ''latest''), (''createdAt'', JIso 1700000000000),
         (''lastUpdated'', JIso 1700000000000),
         (''components'', JObj [(''button'', JObj [(''cachedAt'', JIso 1700000000000),
            (''size'', JNum (int (size (JObj (componentEntry ready_world ''latest'' ''button''
                                               button_payload)))))])]),
         (''docs'', JObj [])]))\<rparr>\<rparr>"
proof -
  have put: "metadata_put ready_world ''components'' ''button''
      (JObj [(''cachedAt'', JIso (clock ready_world)),
             (''size'', JNum (int (size (JObj (componentEntry ready_world ''latest'' ''button''
                                               button_payload)))))])
     = Inr (JObj [(''version'', JStr ''latest''), (''createdAt'', JIso 1700000000000),
         (''lastUpdated'', JIso 1700000000000),
         (''components'', JObj [(''button'', JObj [(''cachedAt'', JIso 1700000000000),
            (''size'', JNum (int (size (JObj (componentEntry ready_world ''latest'' ''button''
                                               button_payload)))))])]),
         (''docs'', JObj [])])"
    using metadata_put_obj[OF ready_world_facts(3), of "''components''" "[]" "''button''"]
    by (simp add: obj_put_first ready_world_facts(2))
  from setComponent_eq[where sz=size and payload=button_payload, OF ready_world_facts(1) ready_world_paths(1) _ _ ready_world_paths(5) _ _ put]
  have e: "setComponent size ready_world ''button'' button_payload = (Inr (),
      ready_world\<lparr>cacheMetadata :=
        JObj [(''version'', JStr ''latest''), (''createdAt'', JIso 1700000000000),
         (''lastUpdated'', JIso 1700000000000),
         (''components'', JObj [(''button'', JObj [(''cachedAt'', JIso 1700000000000),
            (''size'', JNum (int (size (JObj (componentEntry ready_world ''latest'' ''button''
                                               button_payload)))))])]),
         (''docs'', JObj [])],
      files := (files ready_world)\<lparr>store := (store (files ready_world))
        ([''app'', ''cache'', ''latest'', ''components'', ''button.json''] \<mapsto>
            Json (JObj (componentEntry ready_world ''latest'' ''button'' button_payload)),
         [''app'', ''cache'', ''latest'', ''metadata.json''] \<mapsto>
            Json (JObj [(''version'', JStr ''latest''), (''createdAt'', JIso 1700000000000),
         (''lastUpdated'', JIso 1700000000000),
         (''components'', JObj [(''button'', JObj [(''cachedAt'', JIso 1700000000000),
            (''size'', JNum (int (size (JObj (componentEntry ready_world ''latest'' ''button''
                                               button_payload)))))])]),
         (''docs'', JObj [])]))\<rparr>\<rparr>)"
    by (simp add: ready_world_facts(4))
  show "button_world = ready_world\<lparr>cacheMetadata :=
        JObj [(''version'', JStr ''latest''), (''createdAt'', JIso 1700000000000),
         (''lastUpdated'', JIso 1700000000000),
         (''components'', JObj [(''button'', JObj [(''cachedAt'', JIso 1700000000000),
            (''size'', JNum (int (size (JObj (componentEntry ready_world ''latest'' ''button''
                                               button_payload)))))])]),
         (''docs'', JObj [])],
      files := (files ready_world)\<lparr>store := (store (files ready_world))
        ([''app'', ''cache'', ''latest'', ''components'', ''button.json''] \<mapsto>
            Json (JObj (componentEntry ready_world ''latest'' ''button'' button_payload)),
         [''app'', ''cache'', ''latest'', ''metadata.json''] \<mapsto>
            Json (JObj [(''version'', JStr ''latest''), (''createdAt'', JIso 1700000000000),
         (''lastUpdated'', JIso 1700000000000),
         (''components'', JObj [(''button'', JObj [(''cachedAt'', JIso 1700000000000),
            (''size'', JNum (int (size (JObj (componentEntry ready_world ''latest'' ''button''
                                               button_payload)))))])]),
         (''docs'', JObj [])]))\<rparr>\<rparr>"
    unfolding button_world_def e by simp
  then show "setComponent size ready_world ''button'' button_payload = (Inr (), button_world)"
    using e by simp
qed

lemma button_world_eq:
  "setComponent size ready_world ''button'' button_payload = (Inr (), button_world)"
  "currentVersion button_world = Some ''latest''"
  "read_at button_world (componentFile button_world ''latest'' ''button'') =
     Some (JObj [(''html'', JStr ''<h1>X</h1>''), (''componentName'', JStr ''button''),
                 (''version'', JStr ''latest''), (''cachedAt'', JIso 1700000000000)])"
  "env_ttl_hours button_world = EnvUnset"
  "clock button_world = 1700000000000"
proof -
  show "setComponent size ready_world ''button'' button_payload = (Inr (), button_world)"
    by (rule button_world_explicit(1))
  show "currentVersion button_world = Some ''latest''"
    by (subst button_world_explicit(2)) (simp add: ready_world_facts)
  show "read_at button_world (componentFile button_world ''latest'' ''button'') =
     Some (JObj [(''html'', JStr ''<h1>X</h1>''), (''componentName'', JStr ''button''),
                 (''version'', JStr ''latest''), (''cachedAt'', JIso 1700000000000)])"
    by (subst (1 2) button_world_explicit(2))
       (simp add: ready_world_paths read_at_def readJson_def ready_world_facts componentEntry_def
          button_payload_def)
  show "env_ttl_hours button_world = EnvUnset"
    by (subst button_world_explicit(2)) (simp add: ready_world_eq fresh_world_def)
  show "clock button_world = 1700000000000"
    by (subst button_world_explicit(2)) (simp add: ready_world_facts)
qed

text \<open>
  C4. An entry on disk that carries the timestamp \<open>t\<close> is a hit whatever its age, and it
  is reported stale exactly when the age \<open>clock - t\<close> is strictly above
  \<open>ttlHours * 3600000\<close> ms: read one second after the time to live has passed it is
  stale, read one second before it is not, and in both cases the data comes back with
  \<open>cached = true\<close>. Without the environment variable \<open>ttlHours\<close> is 24.
\<close>

theorem getComponent_stale_boundary:
  assumes v: "currentVersion w = Some v"
    and f: "read_at w (componentFile w v key) = Some (JObj fs)"
    and at: "map_of fs ''cachedAt'' = Some (JIso t)"
    and h: "env_number (env_ttl_hours w) 24 = Some ttlHours"
    and d: "d = (case map_of fs (case dt of None \<Rightarrow> ''full'' | Some x \<Rightarrow> x) of
                   None \<Rightarrow> JObj fs | Some x \<Rightarrow> if truthy x then x else JObj fs)"
  shows "getComponent w key dt =
           Inr \<lparr>data = d, cached = True, stale = (clock w - t > ttlHours * 3600000),
                cachedAt = Some (JIso t), version = v\<rparr>
       \<and> getComponent (w\<lparr>clock := t + (ttlHours * 3600000 + 1000)\<rparr>) key dt =
           Inr \<lparr>data = d, cached = True, stale = True, cachedAt = Some (JIso t), version = v\<rparr>
       \<and> getComponent (w\<lparr>clock := t + (ttlHours * 3600000 - 1000)\<rparr>) key dt =
           Inr \<lparr>data = d, cached = True, stale = False, cachedAt = Some (JIso t), version = v\<rparr>
       \<and> d \<noteq> JNull"
proof -
  have r: "read_at (w\<lparr>clock := c\<rparr>) (componentFile (w\<lparr>clock := c\<rparr>) v key) = Some (JObj fs)" for c
    using f by simp
  have 1: "getComponent w key dt =
           Inr \<lparr>data = d, cached = True, stale = (clock w - t > ttlHours * 3600000),
                cachedAt = Some (JIso t), version = v\<rparr>"
    using getComponent_hit[OF v f at, of dt] h d by (simp add: isStale_def mult.commute)
  have 2: "getComponent (w\<lparr>clock := t + (ttlHours * 3600000 + 1000)\<rparr>) key dt =
           Inr \<lparr>data = d, cached = True, stale = True, cachedAt = Some (JIso t), version = v\<rparr>"
    using getComponent_hit[of "w\<lparr>clock := t + (ttlHours * 3600000 + 1000)\<rparr>" v key fs t dt, OF _ r at]
      v h d
    by (simp add: isStale_def)
  have 3: "getComponent (w\<lparr>clock := t + (ttlHours * 3600000 - 1000)\<rparr>) key dt =
           Inr \<lparr>data = d, cached = True, stale = False, cachedAt = Some (JIso t), version = v\<rparr>"
    using getComponent_hit[of "w\<lparr>clock := t + (ttlHours * 3600000 - 1000)\<rparr>" v key fs t dt, OF _ r at]
      v h d
    by (simp add: isStale_def)
  have 4: "d \<noteq> JNull"
    using d by (auto simp: truthy_def split: option.splits)
  show ?thesis using 1 2 3 4 by blast
qed

theorem getComponent_stale_boundary_witness:
  "getComponent (button_world\<lparr>clock := 1700000000000 + (24 * 3600000 + 1000)\<rparr>) ''button'' None =
     Inr \<lparr>data = JObj [(''html'', JStr ''<h1>X</h1>''), (''componentName'', JStr ''button''),
                      (''version'', JStr ''latest''), (''cachedAt'', JIso 1700000000000)],
          cached = True, stale = True, cachedAt = Some (JIso 1700000000000), version = ''latest''\<rparr>
   \<and> getComponent (button_world\<lparr>clock := 1700000000000 + (24 * 3600000 - 1000)\<rparr>) ''button'' None =
     Inr \<lparr>data = JObj [(''html'', JStr ''<h1>X</h1>''), (''componentName'', JStr ''button''),
                      (''version'', JStr ''latest''), (''cachedAt'', JIso 1700000000000)],
          cached = True, stale = False, cachedAt = Some (JIso 1700000000000), version = ''latest''\<rparr>"
  using getComponent_stale_boundary[of button_world "''latest''" "''button''"
      "[(''html'', JStr ''<h1>X</h1>''), (''componentName'', JStr ''button''),
        (''version'', JStr ''latest''), (''cachedAt'', JIso 1700000000000)]"
      1700000000000 24
      "JObj [(''html'', JStr ''<h1>X</h1>''), (''componentName'', JStr ''button''),
        (''version'', JStr ''latest''), (''cachedAt'', JIso 1700000000000)]" None]
  by (simp add: button_world_eq env_number_def)


lemma setComponent_entry_on_disk:
  assumes set: "setComponent sz w key payload = (Inr u, w')"
    and v: "currentVersion w = Some v"
    and own: "componentFile w v key \<noteq> metadataPath w v"
  shows "read_at w' (componentFile w' v key) = Some (JObj (componentEntry w v key payload))"
proof -
  from setComponent_ok[OF set] v obtain p m md where
    p: "componentFile w v key = Inr p" "p \<notin> dirs (files w)"
    and m: "metadataPath w v = Inr m"
    and w': "w' = w\<lparr>cacheMetadata := md,
             files := (files w)\<lparr>store := (store (files w))
                        (p \<mapsto> Json (JObj (componentEntry w v key payload)), m \<mapsto> Json md)\<rparr>\<rparr>"
    by auto
  have pm: "p \<noteq> m" using own p m by simp
  have cf: "componentFile w' v key = Inr p" unfolding w' using p by simp
  show ?thesis unfolding cf using p(2) pm by (simp add: w' read_at_def readJson_def)
qed

text \<open>
  C3, as the code has it. After \<open>setComponent(key, payload)\<close> has completed for a key
  whose entry file is not \<open>metadata.json\<close>, a \<open>getComponent(key)\<close> without a field, made
  while no more than the time to live has passed, returns \<open>cached = true\<close> and
  \<open>stale = false\<close>; its data is the field \<open>full\<close> of the payload when the payload has
  one that is truthy, and otherwise the whole entry that was written: the payload with
  \<open>componentName\<close>, \<open>version\<close> and \<open>cachedAt\<close> set.
\<close>

theorem setComponent_getComponent_roundtrip:
  assumes set: "setComponent sz w key payload = (Inr (), w')"
    and own: "\<forall>v. currentVersion w = Some v \<longrightarrow> componentFile w v key \<noteq> metadataPath w v"
    and ttl: "env_number (env_ttl_hours w) 24 = Some ttlHours"
    and soon: "now - clock w \<le> ttlHours * 3600000"
  shows "\<exists>v. currentVersion w = Some v \<and>
     getComponent (w'\<lparr>clock := now\<rparr>) key None =
       Inr \<lparr>data = (case map_of payload ''full'' of
                      None \<Rightarrow> JObj (componentEntry w v key payload)
                    | Some x \<Rightarrow> if truthy x then x else JObj (componentEntry w v key payload)),
            cached = True, stale = False, cachedAt = Some (JIso (clock w)), version = v\<rparr>"
proof -
  from setComponent_ok[OF set] obtain v md p m where
    v: "currentVersion w = Some v" and
    w': "w' = w\<lparr>cacheMetadata := md,
             files := (files w)\<lparr>store := (store (files w))
                        (p \<mapsto> Json (JObj (componentEntry w v key payload)), m \<mapsto> Json md)\<rparr>\<rparr>"
    by blast
  let ?w = "w'\<lparr>clock := now\<rparr>"
  have 1: "currentVersion ?w = Some v" using v w' by simp
  have 2: "read_at ?w (componentFile ?w v key) = Some (JObj (componentEntry w v key payload))"
    using setComponent_entry_on_disk[OF set v] own v by simp
  have 3: "isStale (Some (clock ?w - clock w)) (env_number (env_ttl_hours ?w) 24) = False"
    using ttl soon w' by (simp add: isStale_def)
  show ?thesis
    using getComponent_hit[OF 1 2 componentEntry_fields(1), of None] 3 v
    by (simp add: componentEntry_fields(2))
qed

theorem setComponent_getComponent_roundtrip_witness:
  "getComponent (snd (setComponent size ready_world ''a'' full_payload)\<lparr>clock := 1700000000000 + 5\<rparr>) ''a'' None =
     Inr \<lparr>data = JObj [(''html'', JStr ''<h1>X</h1>''), (''url'', JStr ''https://www.spartan.ng/components/a'')],
          cached = True, stale = False, cachedAt = Some (JIso 1700000000000), version = ''latest''\<rparr>"
proof -
  have s: "setComponent size ready_world ''a'' full_payload =
      (Inr (), snd (setComponent size ready_world ''a'' full_payload))"
    by (simp add: ready_world_eq setComponent_def saveMetadata_def
        componentEntry_def full_payload_def fresh_world_def Let_def write_at_def writeFile_def
        componentFile_def metadataPath_def fs_path_def checked_def path_join_def metadata_put_def
        obj_put_def)
  have o: "\<forall>v. currentVersion ready_world = Some v \<longrightarrow>
      componentFile ready_world v ''a'' \<noteq> metadataPath ready_world v"
    by (simp add: ready_world_eq fresh_world_def componentFile_def metadataPath_def fs_path_def
        checked_def path_join_def)
  have t: "env_number (env_ttl_hours ready_world) 24 = Some 24"
    by (simp add: ready_world_eq fresh_world_def env_number_def)
  have c: "1700000000000 + 5 - clock ready_world \<le> 24 * 3600000"
    by (simp add: ready_world_eq fresh_world_def)
  from setComponent_getComponent_roundtrip[OF s o t c] show ?thesis
    by (simp add: ready_world_eq fresh_world_def full_payload_def truthy_def)
qed

text \<open>
  C3 as stated fails on a payload without a field \<open>full\<close>: the data that comes back is
  the whole entry, which is neither a field of the payload nor the payload. It also fails
  for the key \<open>../metadata\<close>, whose entry file is \<open>metadata.json\<close>: the metadata is saved
  over the entry, and what comes back is the metadata, without a \<open>cachedAt\<close>.
\<close>

theorem setComponent_getComponent_counterexample:
  "setComponent size ready_world ''button'' button_payload = (Inr (), button_world)
   \<and> map_of button_payload ''full'' = None
   \<and> getComponent button_world ''button'' None =
       Inr \<lparr>data = JObj [(''html'', JStr ''<h1>X</h1>''), (''componentName'', JStr ''button''),
                        (''version'', JStr ''latest''), (''cachedAt'', JIso 1700000000000)],
            cached = True, stale = False, cachedAt = Some (JIso 1700000000000), version = ''latest''\<rparr>
   \<and> JObj [(''html'', JStr ''<h1>X</h1>''), (''componentName'', JStr ''button''),
            (''version'', JStr ''latest''), (''cachedAt'', JIso 1700000000000)] \<noteq> JObj button_payload
   \<and> fst (setComponent size ready_world ''../metadata'' full_payload) = Inr ()
   \<and> getComponent (snd (setComponent size ready_world ''../metadata'' full_payload)) ''../metadata'' None =
       Inr \<lparr>data = cacheMetadata (snd (setComponent size ready_world ''../metadata'' full_payload)),
            cached = True, stale = False, cachedAt = None, version = ''latest''\<rparr>
   \<and> map_of full_payload ''full'' \<noteq>
       Some (cacheMetadata (snd (setComponent size ready_world ''../metadata'' full_payload)))"
proof -
  have 1: "map_of button_payload ''full'' = None"
    by (simp add: button_payload_def)
  have 2: "getComponent button_world ''button'' None =
       Inr \<lparr>data = JObj [(''html'', JStr ''<h1>X</h1>''), (''componentName'', JStr ''button''),
                        (''version'', JStr ''latest''), (''cachedAt'', JIso 1700000000000)],
            cached = True, stale = False, cachedAt = Some (JIso 1700000000000), version = ''latest''\<rparr>"
    using getComponent_hit[of button_world "''latest''" "''button''"
      "[(''html'', JStr ''<h1>X</h1>''), (''componentName'', JStr ''button''),
        (''version'', JStr ''latest''), (''cachedAt'', JIso 1700000000000)]" 1700000000000 None]
    by (simp add: button_world_eq isStale_def env_number_def)
  have 3: "JObj [(''html'', JStr ''<h1>X</h1>''), (''componentName'', JStr ''button''),
            (''version'', JStr ''latest''), (''cachedAt'', JIso 1700000000000)] \<noteq> JObj button_payload"
    by (simp add: button_payload_def)
  define M where "M =
       JObj [(''version'', JStr ''latest''), (''createdAt'', JIso 1700000000000),
         (''lastUpdated'', JIso 1700000000000),
         (''components'', JObj [(''../metadata'',
            JObj [(''cachedAt'', JIso 1700000000000),
                  (''size'', JNum (int (size (JObj (componentEntry ready_world ''latest'' ''../metadata''
                      full_payload)))))])]),
         (''docs'', JObj [])]"
  define w2 where "w2 = ready_world\<lparr>cacheMetadata := M,
         files := (files ready_world)\<lparr>store :=
           (store (files ready_world))([''app'', ''cache'', ''latest'', ''metadata.json'']
              \<mapsto> Json M)\<rparr>\<rparr>"
  have s: "setComponent size ready_world ''../metadata'' full_payload = (Inr (), w2)"
    unfolding w2_def M_def
    by (simp add: ready_world_eq setComponent_def saveMetadata_def
        fresh_world_def Let_def write_at_def writeFile_def
        componentFile_def metadataPath_def fs_path_def checked_def path_join_def metadata_put_def
        obj_put_def is_index_def)
  have 4: "fst (setComponent size ready_world ''../metadata'' full_payload) = Inr ()"
    unfolding s by simp
  have r: "read_at w2 (componentFile w2 ''latest'' ''../metadata'') = Some M"
    unfolding w2_def
    by (simp add: ready_world_eq fresh_world_def read_at_def readJson_def
        componentFile_def fs_path_def checked_def path_join_def)
  have cv: "currentVersion w2 = Some ''latest''"
    unfolding w2_def by (simp add: ready_world_eq)
  have 5: "getComponent w2 ''../metadata'' None =
       Inr \<lparr>data = M, cached = True, stale = False, cachedAt = None, version = ''latest''\<rparr>"
    using cv r by (simp add: getComponent_def M_def get_field_def date_ms_def isStale_def)
  have 6: "map_of full_payload ''full'' \<noteq> Some M"
    by (simp add: M_def full_payload_def)
  have c: "cacheMetadata w2 = M" unfolding w2_def by simp
  show ?thesis using button_world_eq(1) 1 2 3 4 5 6 unfolding s by (simp add: c)
qed


lemma insert_index_set: "set (insert_index k v fs) = insert (k, v) (set fs)"
  by (induction fs) (auto split: if_splits)

lemma insert_index_map_of: "k \<notin> fst ` set fs \<Longrightarrow> map_of (insert_index k v fs) k = Some v"
  by (induction fs) auto

lemma insert_index_distinct:
  "k \<notin> fst ` set fs \<Longrightarrow> distinct (map fst fs) \<Longrightarrow> distinct (map fst (insert_index k v fs))"
  by (induction fs) (auto simp: insert_index_set image_iff)

lemma update_set_subset: "set (AList.update k v fs) \<subseteq> insert (k, v) (set fs)"
  by (induction fs) auto

lemma obj_put_set: "set (obj_put k v fs) \<subseteq> insert (k, v) (set fs)"
  using update_set_subset[of k v fs] by (auto simp: obj_put_def insert_index_set)

lemma obj_put_distinct: "distinct (map fst fs) \<Longrightarrow> distinct (map fst (obj_put k v fs))"
  by (auto simp: obj_put_def distinct_update insert_index_distinct image_iff)

lemma obj_put_map_of:
  "k \<noteq> ''__proto__'' \<or> k \<in> fst ` set fs \<Longrightarrow> map_of (obj_put k v fs) k = Some v"
proof (cases "k \<in> fst ` set fs")
  case True
  then show ?thesis by (simp add: obj_put_def update_conv')
next
  case False
  moreover assume "k \<noteq> ''__proto__'' \<or> k \<in> fst ` set fs"
  moreover have "map_of fs k = None" using False by (simp add: map_of_eq_None_iff)
  ultimately show ?thesis by (simp add: obj_put_def insert_index_map_of map_add_def)
qed

lemma obj_put_entry:
  assumes d: "distinct (map fst fs)" and i: "(k', x) \<in> set (obj_put k v fs)"
    and k: "k \<noteq> ''__proto__'' \<or> k \<in> fst ` set fs"
  shows "(k' = k \<and> x = v) \<or> (k' \<noteq> k \<and> (k', x) \<in> set fs)"
proof (cases "k' = k")
  case True
  have "map_of (obj_put k v fs) k = Some x"
    using obj_put_distinct[OF d, of k v] i True by (intro map_of_is_SomeI) simp_all
  then show ?thesis using obj_put_map_of[OF k, of v] True by simp
next
  case False
  then show ?thesis using obj_put_set[of k v fs] i by auto
qed

lemma read_other:
  assumes "w' = w\<lparr>cacheMetadata := md, files := (files w)\<lparr>store := (store (files w))(p \<mapsto> a, m \<mapsto> b)\<rparr>\<rparr>"
    and "fp \<noteq> Inr p" "fp \<noteq> Inr m"
  shows "read_at w' fp = read_at w fp"
  using assms by (cases fp) (auto simp: read_at_def readJson_def)

lemma put_tracked:
  assumes tr: "tracked w" and v: "currentVersion w = Some v"
    and w': "w' = w\<lparr>cacheMetadata := md, files := (files w)\<lparr>store :=
                 (store (files w))(p \<mapsto> Json (JObj entry), m \<mapsto> Json md)\<rparr>\<rparr>"
    and mp: "metadataPath w v = Inr m" and pd: "p \<notin> dirs (files w)" and mdir: "m \<notin> dirs (files w)"
    and put: "metadata_put w field key e = Inr md"
    and fld: "field = ''components'' \<or> field = ''docs''"
    and fp: "(if field = ''components'' then componentFile w v key else docsFile w v key) = Inr p"
    and own: "own_file w v field key (Inr p)"
    and key: "key \<noteq> ''__proto__''"
    and at: "map_of entry ''cachedAt'' = Some t" "get_field e ''cachedAt'' = Inr (Some t)"
  shows "tracked w' \<and> persisted w'
     \<and> (\<exists>fs cs. cacheMetadata w' = JObj fs \<and> map_of fs field = Some (JObj cs) \<and> map_of cs key = Some e)"
proof -
  from tr v obtain fs cs ds where
    md0: "cacheMetadata w = JObj fs" and c0: "map_of fs ''components'' = Some (JObj cs)"
    and d0: "map_of fs ''docs'' = Some (JObj ds)"
    and dc: "distinct (map fst cs)" and dd: "distinct (map fst ds)"
    and lc: "list_all (\<lambda>(k, e). entry_matches w (metadataPath w v) (componentFile w v k) e) cs"
    and ld: "list_all (\<lambda>(t, e). entry_matches w (metadataPath w v) (docsFile w v t) e) ds"
    by (auto simp: tracked_def split: json.splits option.splits)
  define cs' where "cs' = (if field = ''components'' then obj_put key e cs else cs)"
  define ds' where "ds' = (if field = ''docs'' then obj_put key e ds else ds)"
  have md: "md = JObj (AList.update ''lastUpdated'' (JIso (clock w))
                   (AList.update field (JObj (if field = ''components'' then cs' else ds')) fs))"
    using put fld md0 c0 d0 by (auto simp: metadata_put_def cs'_def ds'_def)
  have mc: "\<exists>fs'. md = JObj fs' \<and> map_of fs' ''components'' = Some (JObj cs')
              \<and> map_of fs' ''docs'' = Some (JObj ds')"
    using fld c0 d0 unfolding md by (auto simp: update_conv' cs'_def ds'_def)
  then obtain fs' where fs': "md = JObj fs'" "map_of fs' ''components'' = Some (JObj cs')"
    "map_of fs' ''docs'' = Some (JObj ds')" by blast
  have pm: "p \<noteq> m" using own mp by (simp add: own_file_def)
  have rp: "read_at w' (Inr p) = Some (JObj entry)"
    using pd pm by (simp add: w' read_at_def readJson_def)
  have rm: "read_at w' (Inr m) = Some md"
    using mdir by (simp add: w' read_at_def readJson_def)
  have new: "entry_matches w' (Inr m) (Inr p) e"
    using pm rp at by (simp add: entry_matches_def)
  have old: "entry_matches w' (Inr m) fq x"
    if "entry_matches w (Inr m) fq x" "fq \<noteq> Inr p" for fq x
  proof -
    have "fq \<noteq> Inr m" using that(1) by (simp add: entry_matches_def)
    then have "read_at w' fq = read_at w fq" using read_other[OF w' that(2)] by simp
    then show ?thesis using that(1) by (simp add: entry_matches_def)
  qed
  have oc: "list_all (\<lambda>(k, q). (field = ''components'' \<and> k = key) \<or> q \<noteq> Inr p)
              (map (\<lambda>(k, e). (k, componentFile w v k)) cs)"
    using own md0 c0 by (simp add: own_file_def referenced_def)
  have od: "list_all (\<lambda>(k, q). (field = ''docs'' \<and> k = key) \<or> q \<noteq> Inr p)
              (map (\<lambda>(k, e). (k, docsFile w v k)) ds)"
    using own md0 d0 by (simp add: own_file_def referenced_def)
  have tc: "list_all (\<lambda>(k, e). entry_matches w' (Inr m) (componentFile w v k) e) cs'"
    unfolding list_all_iff
  proof (intro ballI, clarify)
    fix k x assume i: "(k, x) \<in> set cs'"
    show "entry_matches w' (Inr m) (componentFile w v k) x"
    proof (cases "field = ''components''")
      case True
      from obj_put_entry[OF dc, of k x key e] i True key
      consider "k = key" "x = e" | "k \<noteq> key" "(k, x) \<in> set cs" by (auto simp: cs'_def)
      then show ?thesis
      proof cases
        case 1
        then show ?thesis using new fp True by simp
      next
        case 2
        then have a: "entry_matches w (Inr m) (componentFile w v k) x"
          using lc mp by (auto simp: list_all_iff)
        have "componentFile w v k \<noteq> Inr p" using oc 2 by (auto simp: list_all_iff)
        then show ?thesis using old[OF a] by simp
      qed
    next
      case False
      then have ix: "(k, x) \<in> set cs" using i by (simp add: cs'_def)
      then have a: "entry_matches w (Inr m) (componentFile w v k) x"
        using lc mp by (auto simp: list_all_iff)
      have "componentFile w v k \<noteq> Inr p" using oc ix False by (auto simp: list_all_iff)
      then show ?thesis using old[OF a] by simp
    qed
  qed
  have td: "list_all (\<lambda>(k, e). entry_matches w' (Inr m) (docsFile w v k) e) ds'"
    unfolding list_all_iff
  proof (intro ballI, clarify)
    fix k x assume i: "(k, x) \<in> set ds'"
    show "entry_matches w' (Inr m) (docsFile w v k) x"
    proof (cases "field = ''docs''")
      case True
      then have nf: "field \<noteq> ''components''" by simp
      from obj_put_entry[OF dd, of k x key e] i True key
      consider "k = key" "x = e" | "k \<noteq> key" "(k, x) \<in> set ds" by (auto simp: ds'_def)
      then show ?thesis
      proof cases
        case 1
        then show ?thesis using new fp nf by simp
      next
        case 2
        then have a: "entry_matches w (Inr m) (docsFile w v k) x"
          using ld mp by (auto simp: list_all_iff)
        have "docsFile w v k \<noteq> Inr p" using od 2 by (auto simp: list_all_iff)
        then show ?thesis using old[OF a] by simp
      qed
    next
      case False
      then have ix: "(k, x) \<in> set ds" using i by (simp add: ds'_def)
      then have a: "entry_matches w (Inr m) (docsFile w v k) x"
        using ld mp by (auto simp: list_all_iff)
      have "docsFile w v k \<noteq> Inr p" using od ix False by (auto simp: list_all_iff)
      then show ?thesis using old[OF a] by simp
    qed
  qed
  have dist: "distinct (map fst cs')" "distinct (map fst ds')"
    using dc dd by (simp_all add: cs'_def ds'_def obj_put_distinct)
  have cv: "currentVersion w' = Some v" using v by (simp add: w')
  have cm: "cacheMetadata w' = md" by (simp add: w')
  have paths: "metadataPath w' v = Inr m" "componentFile w' = componentFile w" "docsFile w' = docsFile w"
    using mp by (simp_all add: w')
  have 1: "tracked w'"
    using fs' dist tc td by (simp add: tracked_def cv cm paths)
  have 2: "persisted w'"
    using rm by (simp add: persisted_def cv cm paths)
  have "map_of (if field = ''components'' then cs' else ds') key = Some e"
    using fld key by (auto simp: cs'_def ds'_def obj_put_map_of)
  then have 3: "\<exists>fs cs. cacheMetadata w' = JObj fs \<and> map_of fs field = Some (JObj cs) \<and> map_of cs key = Some e"
    using fs' fld unfolding cm by auto
  show ?thesis using 1 2 3 by blast
qed


lemma setComponent_tracked:
  assumes tr: "tracked w" and v: "currentVersion w = Some v"
    and set: "setComponent sz w key payload = (Inr u, w')"
    and key: "key \<noteq> ''__proto__''"
    and own: "own_file w v ''components'' key (componentFile w v key)"
  shows "tracked w' \<and> persisted w'
     \<and> (\<exists>fs cs e. cacheMetadata w' = JObj fs \<and> map_of fs ''components'' = Some (JObj cs)
            \<and> map_of cs key = Some e \<and> get_field e ''cachedAt'' = Inr (Some (JIso (clock w))))"
proof -
  let ?entry = "componentEntry w v key payload"
  let ?e = "JObj [(''cachedAt'', JIso (clock w)), (''size'', JNum (int (sz (JObj ?entry))))]"
  from setComponent_ok[OF set] v obtain p m md where
    p: "componentFile w v key = Inr p" "p \<notin> dirs (files w)"
    and m: "metadataPath w v = Inr m" "m \<notin> dirs (files w)"
    and put: "metadata_put w ''components'' key ?e = Inr md"
    and w': "w' = w\<lparr>cacheMetadata := md, files := (files w)\<lparr>store := (store (files w))
                        (p \<mapsto> Json (JObj ?entry), m \<mapsto> Json md)\<rparr>\<rparr>"
    by auto
  have g: "get_field ?e ''cachedAt'' = Inr (Some (JIso (clock w)))"
    by (simp add: get_field_def)
  from put_tracked[OF tr v w' m(1) p(2) m(2) put _ _ _ key componentEntry_fields(1) g]
    p(1) own
  show ?thesis using g by auto
qed

lemma setDocs_tracked:
  assumes tr: "tracked w" and v: "currentVersion w = Some v"
    and set: "setDocs sz w topic content = (Inr u, w')"
    and key: "topic \<noteq> ''__proto__''"
    and own: "own_file w v ''docs'' topic (docsFile w v topic)"
  shows "tracked w' \<and> persisted w'
     \<and> (\<exists>fs ds e. cacheMetadata w' = JObj fs \<and> map_of fs ''docs'' = Some (JObj ds)
            \<and> map_of ds topic = Some e \<and> get_field e ''cachedAt'' = Inr (Some (JIso (clock w))))"
proof -
  let ?entry = "[(''topic'', JStr topic), (''content'', JStr content),
                    (''version'', JStr v), (''cachedAt'', JIso (clock w))]"
  let ?e = "JObj [(''cachedAt'', JIso (clock w)), (''size'', JNum (int (sz (JObj ?entry))))]"
  from setDocs_ok[OF set] v obtain p m md where
    p: "docsFile w v topic = Inr p" "p \<notin> dirs (files w)"
    and m: "metadataPath w v = Inr m" "m \<notin> dirs (files w)"
    and put: "metadata_put w ''docs'' topic ?e = Inr md"
    and w': "w' = w\<lparr>cacheMetadata := md, files := (files w)\<lparr>store := (store (files w))
                        (p \<mapsto> Json (JObj ?entry), m \<mapsto> Json md)\<rparr>\<rparr>"
    by auto
  have g: "get_field ?e ''cachedAt'' = Inr (Some (JIso (clock w)))"
    by (simp add: get_field_def)
  have a: "map_of ?entry ''cachedAt'' = Some (JIso (clock w))" by simp
  from put_tracked[OF tr v w' m(1) p(2) m(2) put _ _ _ key a g] p(1) own
  show ?thesis using g by auto
qed

lemma tracked_ready_world: "tracked ready_world"
  by (simp add: tracked_def ready_world_eq fresh_world_def)

lemma own_file_ready_world:
  "own_file ready_world ''latest'' ''components'' ''button'' (componentFile ready_world ''latest'' ''button'')"
  "own_file ready_world ''latest'' ''docs'' ''theming'' (docsFile ready_world ''latest'' ''theming'')"
  by (simp_all add: own_file_def referenced_def ready_world_paths, simp_all add: ready_world_eq)

text \<open>
  C9 as stated fails, because a key is not a file name. After \<open>setComponent("button")\<close>,
  the call \<open>setComponent("./button")\<close> completes and writes the same file
  \<open>components/button.json\<close>: the metadata still names \<open>button\<close> with the old \<open>cachedAt\<close>,
  the file has the new one. And \<open>setComponent("__proto__")\<close> completes and writes its
  entry file, but the assignment to \<open>components["__proto__"]\<close> records no key.
\<close>

theorem set_metadata_out_of_step_counterexample:
  "tracked button_world
   \<and> fst (setComponent size (button_world\<lparr>clock := 1700000001000\<rparr>) ''./button'' button_payload) = Inr ()
   \<and> \<not> tracked (snd (setComponent size (button_world\<lparr>clock := 1700000001000\<rparr>) ''./button'' button_payload))
   \<and> fst (setComponent size ready_world ''__proto__'' button_payload) = Inr ()
   \<and> (\<exists>fs. cacheMetadata (snd (setComponent size ready_world ''__proto__'' button_payload)) = JObj fs
          \<and> map_of fs ''components'' = Some (JObj []))"
proof -
  have cv: "currentVersion ready_world = Some ''latest''" by (simp add: ready_world_eq)
  have 1: "tracked button_world"
    using setComponent_tracked[OF tracked_ready_world cv button_world_eq(1) _ own_file_ready_world(1)]
    by simp
  define e1 where "e1 = JObj [(''cachedAt'', JIso 1700000000000),
      (''size'', JNum (int (size (JObj (componentEntry ready_world ''latest'' ''button'' button_payload)))))]"
  define md1 where "md1 = JObj [(''version'', JStr ''latest''), (''createdAt'', JIso 1700000000000),
         (''lastUpdated'', JIso 1700000000000), (''components'', JObj [(''button'', e1)]),
         (''docs'', JObj [])]"
  have bw: "button_world = ready_world\<lparr>cacheMetadata := md1,
      files := (files ready_world)\<lparr>store := (store (files ready_world))
        ([''app'', ''cache'', ''latest'', ''components'', ''button.json''] \<mapsto>
            Json (JObj (componentEntry ready_world ''latest'' ''button'' button_payload)),
         [''app'', ''cache'', ''latest'', ''metadata.json''] \<mapsto> Json md1)\<rparr>\<rparr>"
    unfolding md1_def e1_def by (rule button_world_explicit(2))
  define w1 where "w1 = button_world\<lparr>clock := 1700000001000\<rparr>"
  define e2 where "e2 = JObj [(''cachedAt'', JIso (clock w1)),
      (''size'', JNum (int (size (JObj (componentEntry w1 ''latest'' ''./button'' button_payload)))))]"
  define md2 where "md2 = JObj [(''version'', JStr ''latest''), (''createdAt'', JIso 1700000000000),
         (''lastUpdated'', JIso 1700000001000),
         (''components'', JObj [(''button'', e1), (''./button'', e2)]), (''docs'', JObj [])]"
  define w2 where "w2 = w1\<lparr>cacheMetadata := md2,
      files := (files w1)\<lparr>store := (store (files w1))
        ([''app'', ''cache'', ''latest'', ''components'', ''button.json''] \<mapsto>
            Json (JObj (componentEntry w1 ''latest'' ''./button'' button_payload)),
         [''app'', ''cache'', ''latest'', ''metadata.json''] \<mapsto> Json md2)\<rparr>\<rparr>"
  have cv1: "currentVersion w1 = Some ''latest''" by (simp add: w1_def bw cv)
  have p1: "componentFile w1 = componentFile ready_world" "metadataPath w1 = metadataPath ready_world"
    by (simp_all add: w1_def bw)
  have c1: "clock w1 = 1700000001000" "cacheMetadata w1 = md1"
    "dirs (files w1) = dirs (files ready_world)"
    by (simp_all add: w1_def bw)
  have put2: "metadata_put w1 ''components'' ''./button'' e2 = Inr md2"
    using metadata_put_obj[OF c1(2)[unfolded md1_def], of "''components''" "[(''button'', e1)]"
        "''./button''" e2]
    by (simp add: md2_def c1(1) obj_put_def is_index_def)
  have s2: "setComponent size w1 ''./button'' button_payload = (Inr (), w2)"
    using setComponent_eq[where sz=size and payload=button_payload
        and p="[''app'', ''cache'', ''latest'', ''components'', ''button.json'']"
        and m="[''app'', ''cache'', ''latest'', ''metadata.json'']",
        OF cv1 _ _ _ _ _ _ put2[unfolded e2_def]]
    by (simp add: p1 ready_world_paths c1(3) ready_world_facts(4) w2_def)
  have 2: "fst (setComponent size w1 ''./button'' button_payload) = Inr ()" unfolding s2 by simp
  have r: "read_at w2 (componentFile ready_world ''latest'' ''button'') =
      Some (JObj (componentEntry w1 ''latest'' ''./button'' button_payload))"
    unfolding ready_world_paths
    by (simp add: w2_def read_at_def readJson_def c1(3) ready_world_facts(4))
  have "\<not> entry_matches w2 (metadataPath ready_world ''latest'')
          (componentFile ready_world ''latest'' ''button'') e1"
    unfolding entry_matches_def r
    by (simp add: componentEntry_fields c1 e1_def get_field_def)
  then have 3: "\<not> tracked w2"
    by (simp add: tracked_def w2_def cv1 md2_def p1)
  have put3: "metadata_put ready_world ''components'' ''__proto__''
      (JObj [(''cachedAt'', JIso (clock ready_world)),
             (''size'', JNum (int (size (JObj (componentEntry ready_world ''latest'' ''__proto__''
                                               button_payload)))))])
      = Inr (cacheMetadata ready_world)"
    using metadata_put_obj[OF ready_world_facts(3), of "''components''" "[]" "''__proto__''"]
    by (simp add: obj_put_def ready_world_facts(2,3))
  have s3: "setComponent size ready_world ''__proto__'' button_payload =
      (Inr (), ready_world\<lparr>cacheMetadata := cacheMetadata ready_world,
         files := (files ready_world)\<lparr>store := (store (files ready_world))
           ([''app'', ''cache'', ''latest'', ''components'', ''__proto__.json''] \<mapsto>
              Json (JObj (componentEntry ready_world ''latest'' ''__proto__'' button_payload)),
            [''app'', ''cache'', ''latest'', ''metadata.json''] \<mapsto>
              Json (cacheMetadata ready_world))\<rparr>\<rparr>)"
    using setComponent_eq[where sz=size and payload=button_payload, OF ready_world_facts(1) ready_world_paths(3) _ _ ready_world_paths(5) _ _ put3]
    by (simp add: ready_world_facts(4))
  have 4: "fst (setComponent size ready_world ''__proto__'' button_payload) = Inr ()"
    unfolding s3 by simp
  have 5: "\<exists>fs. cacheMetadata (snd (setComponent size ready_world ''__proto__'' button_payload)) = JObj fs
          \<and> map_of fs ''components'' = Some (JObj [])"
    unfolding s3 by (simp add: ready_world_facts(3))
  have n2: "fst (setComponent size (button_world\<lparr>clock := 1700000001000\<rparr>) ''./button'' button_payload) = Inr ()"
    using 2 unfolding w1_def .
  have n3: "\<not> tracked (snd (setComponent size (button_world\<lparr>clock := 1700000001000\<rparr>) ''./button'' button_payload))"
    using 3 s2 unfolding w1_def by simp
  show ?thesis using 1 n2 n3 4 5 by blast
qed

text \<open>
  C9, for a key that has its entry file to itself. When the metadata in memory names
  only entries that are on disk with the same \<open>cachedAt\<close>, then after a completed
  \<open>setComponent\<close> and after a completed \<open>setDocs\<close> it still does, the written key is
  named with the \<open>cachedAt\<close> of the entry just written, and the \<open>metadata.json\<close> of the
  active version holds the metadata in memory; provided the key is not \<open>__proto__\<close> and
  its entry file is not \<open>metadata.json\<close> nor the entry file of another key or topic
  that the metadata names. A key without \<open>/\<close> has such a file when the other keys have
  none either.
\<close>

theorem set_keeps_metadata_in_step:
  assumes inv: "tracked w" and v: "currentVersion w = Some v"
    and sc: "setComponent sz w key payload = (Inr (), wc)"
    and kc: "key \<noteq> ''__proto__''"
    and oc: "own_file w v ''components'' key (componentFile w v key)"
    and sd: "setDocs sz w topic content = (Inr (), wd)"
    and kd: "topic \<noteq> ''__proto__''"
    and od: "own_file w v ''docs'' topic (docsFile w v topic)"
  shows "tracked wc \<and> persisted wc
       \<and> (\<exists>fs cs e. cacheMetadata wc = JObj fs \<and> map_of fs ''components'' = Some (JObj cs)
              \<and> map_of cs key = Some e \<and> get_field e ''cachedAt'' = Inr (Some (JIso (clock w))))
       \<and> tracked wd \<and> persisted wd
       \<and> (\<exists>fs ds e. cacheMetadata wd = JObj fs \<and> map_of fs ''docs'' = Some (JObj ds)
              \<and> map_of ds topic = Some e \<and> get_field e ''cachedAt'' = Inr (Some (JIso (clock w))))"
  using setComponent_tracked[OF inv v sc kc oc] setDocs_tracked[OF inv v sd kd od] by blast

theorem set_keeps_metadata_in_step_witness:
  "tracked ready_world
   \<and> setComponent size ready_world ''button'' button_payload = (Inr (), button_world)
   \<and> fst (setDocs size ready_world ''theming'' ''<p>T</p>'') = Inr ()
   \<and> tracked button_world \<and> persisted button_world
   \<and> tracked (snd (setDocs size ready_world ''theming'' ''<p>T</p>''))
   \<and> persisted (snd (setDocs size ready_world ''theming'' ''<p>T</p>''))"
proof -
  have cv: "currentVersion ready_world = Some ''latest''" by (simp add: ready_world_eq)
  have put: "metadata_put ready_world ''docs'' ''theming''
      (JObj [(''cachedAt'', JIso (clock ready_world)),
             (''size'', JNum (int (size (JObj [(''topic'', JStr ''theming''),
                (''content'', JStr ''<p>T</p>''), (''version'', JStr ''latest''),
                (''cachedAt'', JIso (clock ready_world))]))))])
     = Inr (JObj (AList.update ''lastUpdated'' (JIso (clock ready_world))
                  (AList.update ''docs'' (JObj (obj_put ''theming''
      (JObj [(''cachedAt'', JIso (clock ready_world)),
             (''size'', JNum (int (size (JObj [(''topic'', JStr ''theming''),
                (''content'', JStr ''<p>T</p>''), (''version'', JStr ''latest''),
                (''cachedAt'', JIso (clock ready_world))]))))]) []))
       [(''version'', JStr ''latest''), (''createdAt'', JIso 1700000000000),
           (''lastUpdated'', JIso 1700000000000), (''components'', JObj []), (''docs'', JObj [])])))"
    by (rule metadata_put_obj[OF ready_world_facts(3)]) simp
  have fd: "fst (setDocs size ready_world ''theming'' ''<p>T</p>'') = Inr ()"
    using setDocs_eq[where sz=size and content="''<p>T</p>''", OF ready_world_facts(1) ready_world_paths(4) _ _ ready_world_paths(5) _ _ put]
    by (simp add: ready_world_facts(4))
  then have d: "setDocs size ready_world ''theming'' ''<p>T</p>'' =
       (Inr (), snd (setDocs size ready_world ''theming'' ''<p>T</p>''))"
    by (metis prod.collapse)
  have k: "''button'' \<noteq> ''__proto__''" "''theming'' \<noteq> ''__proto__''" by simp_all
  from set_keeps_metadata_in_step[OF tracked_ready_world cv button_world_eq(1) k(1)
      own_file_ready_world(1) d k(2) own_file_ready_world(2)]
  show ?thesis using tracked_ready_world button_world_eq(1) fd by simp
qed

section \<open>Properties of fetchContent\<close>

lemma fetchContent_miss:
  assumes miss: "\<forall>c ts ttl. responseCache w (url @ ''::'' @ format) = Some (c, ts) \<longrightarrow>
        env_number (env_ttl_ms w) 300000 = Some ttl \<longrightarrow> \<not> clock w - ts < ttl"
    and net: "network w url = Resolved res" and ok: "ok res"
  shows "fetchContent w url format False =
     (Inr (if format = ''text'' then htmlToText (body res) else body res),
      w\<lparr>requests := requests w @ [url],
        responseCache := (responseCache w)(url @ ''::'' @ format \<mapsto>
           (if format = ''text'' then htmlToText (body res) else body res, clock w))\<rparr>)"
  using assms by (auto simp: fetchContent_def Let_def split: option.splits)

lemma fetchContent_hit:
  assumes "responseCache w (url @ ''::'' @ format) = Some (c, ts)"
    and "env_number (env_ttl_ms w) 300000 = Some ttl" and "clock w - ts < ttl"
  shows "fetchContent w url format False = (Inr c, w)"
  using assms by (simp add: fetchContent_def Let_def)


text \<open>
  C5. A call \<open>fetchContent(url, "html", false)\<close> that is not served from the cache and
  whose request succeeds issues one GET and stores the page; a second call made while
  that entry is younger than the time to live (300000 ms unless the environment says
  otherwise) returns the stored page and issues no request: one GET in total.
\<close>

theorem fetchContent_twice_one_request:
  assumes miss: "\<forall>c ts. responseCache w (url @ ''::html'') = Some (c, ts) \<longrightarrow> \<not> clock w - ts < ttl"
    and net: "network w url = Resolved res" and ok: "ok res"
    and ttl: "env_number (env_ttl_ms w) 300000 = Some ttl"
    and young: "now - clock w < ttl"
  shows "\<exists>w1. fetchContent w url ''html'' False = (Inr (body res), w1)
       \<and> requests w1 = requests w @ [url]
       \<and> fetchContent (w1\<lparr>clock := now\<rparr>) url ''html'' False = (Inr (body res), w1\<lparr>clock := now\<rparr>)
       \<and> requests (snd (fetchContent (w1\<lparr>clock := now\<rparr>) url ''html'' False)) = requests w @ [url]"
proof -
  let ?w1 = "w\<lparr>requests := requests w @ [url],
        responseCache := (responseCache w)(url @ ''::'' @ ''html'' \<mapsto> (body res, clock w))\<rparr>"
  have m: "\<forall>c ts ttl. responseCache w (url @ ''::'' @ ''html'') = Some (c, ts) \<longrightarrow>
        env_number (env_ttl_ms w) 300000 = Some ttl \<longrightarrow> \<not> clock w - ts < ttl"
    using miss ttl by simp
  have first: "fetchContent w url ''html'' False = (Inr (body res), ?w1)"
    using fetchContent_miss[OF m net ok] by simp
  let ?w = "?w1\<lparr>clock := now\<rparr>"
  have a: "responseCache ?w (url @ ''::'' @ ''html'') = Some (body res, clock w)" by simp
  have b: "env_number (env_ttl_ms ?w) 300000 = Some ttl" using ttl by simp
  have c: "clock ?w - clock w < ttl" using young by simp
  have second: "fetchContent ?w url ''html'' False = (Inr (body res), ?w)"
    by (rule fetchContent_hit[OF a b c])
  have r1: "requests ?w1 = requests w @ [url]" by simp
  have r2: "requests (snd (fetchContent ?w url ''html'' False)) = requests w @ [url]"
    unfolding second by simp
  show ?thesis using first second r1 r2 by blast
qed

theorem fetchContent_twice_one_request_witness:
  "requests expired_world = []
   \<and> requests (snd (fetchContent
         (snd (fetchContent expired_world (SPARTAN_COMPONENTS_BASE @ ''/a'') ''html'' False)
            \<lparr>clock := 1700000000000 + 299999\<rparr>)
         (SPARTAN_COMPONENTS_BASE @ ''/a'') ''html'' False))
       = [SPARTAN_COMPONENTS_BASE @ ''/a'']"
proof -
  let ?url = "SPARTAN_COMPONENTS_BASE @ ''/a''"
  have miss: "\<forall>c ts. responseCache expired_world (?url @ ''::html'') = Some (c, ts) \<longrightarrow>
       \<not> clock expired_world - ts < 300000"
    by (simp add: expired_world_def fresh_world_def)
  have net: "network expired_world ?url = Resolved \<lparr>status = 200, statusText = ''OK'', body = ''<h1>X</h1>''\<rparr>"
    by (simp add: expired_world_def fresh_world_def example_network_def)
  have ok: "ok \<lparr>status = 200, statusText = ''OK'', body = ''<h1>X</h1>''\<rparr>"
    by (simp add: ok_def)
  have ttl: "env_number (env_ttl_ms expired_world) 300000 = Some 300000"
    by (simp add: expired_world_def fresh_world_def env_number_def)
  have young: "1700000000000 + 299999 - clock expired_world < 300000"
    by (simp add: expired_world_def fresh_world_def)
  from fetchContent_twice_one_request[OF miss net ok ttl young]
  obtain w1 where
    1: "fetchContent expired_world ?url ''html'' False =
          (Inr (body \<lparr>status = 200, statusText = ''OK'', body = ''<h1>X</h1>''\<rparr>), w1)"
    and 2: "requests (snd (fetchContent (w1\<lparr>clock := 1700000000000 + 299999\<rparr>) ?url ''html'' False))
          = requests expired_world @ [?url]"
    by blast
  have 3: "requests expired_world = []"
    by (simp add: expired_world_def fresh_world_def)
  show ?thesis using 2 3 unfolding 1 by simp
qed

section \<open>Properties of the cache warmup\<close>
























section \<open>Scanning a text\<close>

lemma find_idx_None: "find_idx P s = None \<longleftrightarrow> (\<forall>i \<le> length s. \<not> P (drop i s))"
proof (induction s)
  case Nil
  then show ?case by simp
next
  case (Cons c cs)
  have "(\<forall>i \<le> length (c # cs). \<not> P (drop i (c # cs))) \<longleftrightarrow>
        (\<not> P (c # cs) \<and> (\<forall>i \<le> length cs. \<not> P (drop i cs)))"
    (is "?L \<longleftrightarrow> ?R")
  proof
    assume l: ?L
    have "\<not> P (c # cs)" using l[rule_format, of 0] by simp
    moreover have "\<not> P (drop i cs)" if "i \<le> length cs" for i
      using l[rule_format, of "Suc i"] that by simp
    ultimately show ?R by blast
  next
    assume r: ?R
    show ?L
    proof (intro allI impI)
      fix i assume "i \<le> length (c # cs)"
      then show "\<not> P (drop i (c # cs))" using r by (cases i) auto
    qed
  qed
  then show ?case using Cons.IH by simp
qed

lemma find_idx_Some:
  "find_idx P s = Some j \<longleftrightarrow> (j \<le> length s \<and> P (drop j s) \<and> (\<forall>i < j. \<not> P (drop i s)))"
proof (induction s arbitrary: j)
  case Nil
  then show ?case by auto
next
  case (Cons c cs)
  show ?case
  proof (cases "P (c # cs)")
    case True
    then show ?thesis
      by (auto simp: gr0_conv_Suc)
  next
    case False
    show ?thesis
    proof (cases j)
      case 0
      then show ?thesis using False by simp
    next
      case (Suc k)
      have "(\<forall>i < Suc k. \<not> P (drop i (c # cs))) \<longleftrightarrow> (\<forall>i < k. \<not> P (drop i cs))"
        (is "?L \<longleftrightarrow> ?R")
      proof
        assume l: ?L
        show ?R
        proof (intro allI impI)
          fix i assume "i < k"
          then show "\<not> P (drop i cs)" using l[rule_format, of "Suc i"] by simp
        qed
      next
        assume r: ?R
        show ?L
        proof (intro allI impI)
          fix i assume "i < Suc k"
          then show "\<not> P (drop i (c # cs))" using r False by (cases i) auto
        qed
      qed
      then show ?thesis using False Suc Cons.IH[of k] by auto
    qed
  qed
qed

lemma replace_all_skip:
  "(\<forall>i < length xs. m (drop i (xs @ ys)) = None) \<Longrightarrow>
     replace_all m rep (xs @ ys) = xs @ replace_all m rep ys"
proof (induction xs)
  case Nil
  then show ?case by simp
next
  case (Cons x xs)
  have 0: "m ((x # xs) @ ys) = None" using Cons.prems[rule_format, of 0] by simp
  have "\<forall>i < length xs. m (drop i (xs @ ys)) = None"
  proof (intro allI impI)
    fix i assume "i < length xs"
    then show "m (drop i (xs @ ys)) = None" using Cons.prems[rule_format, of "Suc i"] by simp
  qed
  from Cons.IH[OF this] 0 show ?case by simp
qed

lemma replace_all_hit:
  "m s = Some n \<Longrightarrow> 0 < n \<Longrightarrow> s \<noteq> [] \<Longrightarrow> replace_all m rep s = rep @ replace_all m rep (drop n s)"
  by (cases s; cases n) auto

lemma match_all_skip:
  "(\<forall>i < length xs. m (drop i (xs @ ys)) = None) \<Longrightarrow> match_all m (xs @ ys) = match_all m ys"
proof (induction xs)
  case Nil
  then show ?case by simp
next
  case (Cons x xs)
  have 0: "m ((x # xs) @ ys) = None" using Cons.prems[rule_format, of 0] by simp
  have "\<forall>i < length xs. m (drop i (xs @ ys)) = None"
  proof (intro allI impI)
    fix i assume "i < length xs"
    then show "m (drop i (xs @ ys)) = None" using Cons.prems[rule_format, of "Suc i"] by simp
  qed
  from Cons.IH[OF this] 0 show ?case by simp
qed

lemma match_all_hit:
  "m s = Some (x, n) \<Longrightarrow> 0 < n \<Longrightarrow> s \<noteq> [] \<Longrightarrow> match_all m s = x # match_all m (drop n s)"
  by (cases s; cases n) auto

lemma match_first_skip:
  "(\<forall>i < length xs. m (drop i (xs @ ys)) = None) \<Longrightarrow> match_first m (xs @ ys) = match_first m ys"
proof (induction xs)
  case Nil
  then show ?case by simp
next
  case (Cons x xs)
  have 0: "m ((x # xs) @ ys) = None" using Cons.prems[rule_format, of 0] by simp
  have "\<forall>i < length xs. m (drop i (xs @ ys)) = None"
  proof (intro allI impI)
    fix i assume "i < length xs"
    then show "m (drop i (xs @ ys)) = None" using Cons.prems[rule_format, of "Suc i"] by simp
  qed
  from Cons.IH[OF this] 0 show ?case by simp
qed


lemma match_first_Some:
  "match_first m s = Some x \<Longrightarrow> \<exists>i \<le> length s. m (drop i s) = Some x"
proof (induction s)
  case Nil
  then show ?case by simp
next
  case (Cons c cs)
  show ?case
  proof (cases "m (c # cs)")
    case None
    with Cons obtain i where "i \<le> length cs" "m (drop i cs) = Some x" by auto
    then show ?thesis by (intro exI[of _ "Suc i"]) simp
  next
    case (Some y)
    with Cons.prems show ?thesis by (intro exI[of _ 0]) simp
  qed
qed

lemma match_first_None:
  "(\<forall>i \<le> length s. m (drop i s) = None) \<Longrightarrow> match_first m s = None"
proof (induction s)
  case Nil
  then show ?case by simp
next
  case (Cons c cs)
  have 0: "m (c # cs) = None" using Cons.prems[rule_format, of 0] by simp
  have "\<forall>i \<le> length cs. m (drop i cs) = None"
  proof (intro allI impI)
    fix i assume "i \<le> length cs"
    then show "m (drop i cs) = None" using Cons.prems[rule_format, of "Suc i"] by simp
  qed
  from Cons.IH[OF this] 0 show ?case by simp
qed

lemma ci_prefix_iff:
  "ci_prefix p s \<longleftrightarrow> (length p \<le> length s \<and> map lowerc (take (length p) s) = p)"
  by (induction p s rule: ci_prefix.induct) auto

lemma cs_prefix_iff:
  "cs_prefix p s \<longleftrightarrow> (length p \<le> length s \<and> take (length p) s = p)"
  by (induction p s rule: cs_prefix.induct) auto

section \<open>Properties of extractAPIInfo\<close>

lemma after_gt_Some:
  "after_gt s = Some r \<Longrightarrow> \<exists>attrs. s = attrs @ CHR ''>'' # r \<and> CHR ''>'' \<notin> set attrs"
proof -
  assume a: "after_gt s = Some r"
  let ?a = "takeWhile (\<lambda>c. c \<noteq> CHR ''>'') s"
  from a obtain g where d: "dropWhile (\<lambda>c. c \<noteq> CHR ''>'') s = g # r"
    by (auto simp: after_gt_def split: list.splits)
  then have "g = CHR ''>''" using hd_dropWhile[of "\<lambda>c. c \<noteq> CHR ''>''" s] by auto
  then have "s = ?a @ CHR ''>'' # r" using d takeWhile_dropWhile_id[of "\<lambda>c. c \<noteq> CHR ''>''" s] by simp
  moreover have "CHR ''>'' \<notin> set ?a" by (auto dest: set_takeWhileD)
  ultimately show ?thesis by blast
qed

lemma after_gt_append:
  "CHR ''>'' \<notin> set attrs \<Longrightarrow> after_gt (attrs @ CHR ''>'' # r) = Some r"
proof -
  assume a: "CHR ''>'' \<notin> set attrs"
  have "dropWhile (\<lambda>c. c \<noteq> CHR ''>'') (attrs @ CHR ''>'' # r) = CHR ''>'' # r"
    using a by (induction attrs) auto
  then show ?thesis by (simp add: after_gt_def)
qed

lemma open_h_Some:
  "open_h s = Some r \<Longrightarrow>
     \<exists>h l attrs. s = CHR ''<'' # h # l # attrs @ CHR ''>'' # r \<and> lowerc h = CHR ''h'' \<and> is_level l
        \<and> CHR ''>'' \<notin> set attrs"
  by (auto simp: open_h_def split: list.splits if_splits dest!: after_gt_Some)

lemma close_h_tag_Some:
  "close_h_tag s = Some r \<Longrightarrow>
     \<exists>h l. s = CHR ''<'' # CHR ''/'' # h # l # CHR ''>'' # r \<and> lowerc h = CHR ''h'' \<and> is_level l"
proof -
  assume a: "close_h_tag s = Some r"
  then have p: "cs_prefix ''</'' s" and c: "close_h (drop 2 s)" and r: "r = drop 5 s"
    by (auto simp: close_h_tag_def split: if_splits)
  from p obtain s2 where s: "s = CHR ''<'' # CHR ''/'' # s2"
    by (cases s; cases "tl s") auto
  from c s obtain h l g r' where s2: "s2 = h # l # g # r'" and hl: "lowerc h = CHR ''h''" "is_level l" "g = CHR ''>''"
    by (auto simp: close_h_def split: list.splits)
  show ?thesis using s s2 hl r by simp
qed

lemma heading_m_Some:
  assumes "heading_m t s = Some r"
  shows "\<exists>h l attrs t' h' l'.
     s = CHR ''<'' # h # l # attrs @ CHR ''>'' # t' @ CHR ''<'' # CHR ''/'' # h' # l' # CHR ''>'' # r
     \<and> lowerc h = CHR ''h'' \<and> is_level l \<and> CHR ''>'' \<notin> set attrs
     \<and> map lowerc t' = t \<and> lowerc h' = CHR ''h'' \<and> is_level l'"
proof -
  from assms obtain r1 where o: "open_h s = Some r1" and p: "ci_prefix t r1"
    and c: "close_h_tag (drop (length t) r1) = Some r"
    by (auto simp: heading_m_def split: option.splits if_splits)
  from open_h_Some[OF o] obtain h l attrs where
    s: "s = CHR ''<'' # h # l # attrs @ CHR ''>'' # r1" and hl: "lowerc h = CHR ''h''" "is_level l"
    "CHR ''>'' \<notin> set attrs" by blast
  from close_h_tag_Some[OF c] obtain h' l' where
    d: "drop (length t) r1 = CHR ''<'' # CHR ''/'' # h' # l' # CHR ''>'' # r"
    and hl': "lowerc h' = CHR ''h''" "is_level l'" by blast
  have t: "map lowerc (take (length t) r1) = t" using p by (simp add: ci_prefix_iff)
  have "r1 = take (length t) r1 @ CHR ''<'' # CHR ''/'' # h' # l' # CHR ''>'' # r"
    using d append_take_drop_id[of "length t" r1] by simp
  with s hl hl' t show ?thesis by blast
qed

lemma section_heading:
  assumes "match_first (section_m t ts) html = Some x"
  shows "has_heading t html"
proof -
  from match_first_Some[OF assms] obtain i where i: "i \<le> length html"
    and m: "section_m t ts (drop i html) = Some x" by blast
  from m obtain r where "heading_m t (drop i html) = Some r"
    by (auto simp: section_m_def split: option.splits)
  from heading_m_Some[OF this] obtain h l attrs t' h' l' where
    d: "drop i html = CHR ''<'' # h # l # attrs @ CHR ''>'' # t' @ CHR ''<'' # CHR ''/'' # h' # l' # CHR ''>'' # r"
    and c: "lowerc h = CHR ''h''" "is_level l" "CHR ''>'' \<notin> set attrs"
     "map lowerc t' = t" "lowerc h' = CHR ''h''" "is_level l'" by blast
  have "html = take i html @ [CHR ''<'', h, l] @ attrs @ [CHR ''>''] @ t' @ [CHR ''<'', CHR ''/'', h', l', CHR ''>''] @ r"
    using d append_take_drop_id[of i html] by simp
  with c show ?thesis unfolding has_heading_def by blast
qed

lemma has_heading_occurs:
  assumes "has_heading t html"
  shows "find_idx (ci_prefix t) html \<noteq> None"
proof -
  from assms obtain pre h l attrs t' h' l' post where
    h: "html = pre @ [CHR ''<'', h, l] @ attrs @ [CHR ''>''] @ t' @ [CHR ''<'', CHR ''/'', h', l', CHR ''>''] @ post"
    and t: "map lowerc t' = t" unfolding has_heading_def by blast
  define p where "p = pre @ [CHR ''<'', h, l] @ attrs @ [CHR ''>'']"
  define x where "x = [CHR ''<'', CHR ''/'', h', l', CHR ''>''] @ post"
  have hx: "html = p @ t' @ x" unfolding h p_def x_def by simp
  have "ci_prefix t (drop (length p) html)"
    unfolding hx using t by (auto simp: ci_prefix_iff)
  moreover have "length p \<le> length html" unfolding hx by simp
  ultimately show ?thesis using find_idx_None[of "ci_prefix t" html] by blast
qed

text \<open>
  C2. On a page without a heading "Brain API" and without a heading "Helm API",
  extractAPIInfo returns no component in \<open>brainAPI\<close> and none in \<open>helmAPI\<close>, and the
  examples made of the code blocks of the page. On no string does the body of the
  \<open>try\<close> throw; on an argument that is not a string the call of \<open>html.match\<close> throws,
  the \<open>catch\<close> takes it, and the result has its three sequences empty.
\<close>

theorem extractAPIInfo_no_sections:
  assumes nb: "\<not> has_heading ''brain api'' html" and nh: "\<not> has_heading ''helm api'' html"
  shows "extractAPIInfo (JSString html) =
           \<lparr>brainAPI = [], helmAPI = [], examples = examples_of (extractCodeBlocks html)\<rparr>
       \<and> (\<exists>r. extractAPIInfo_try (JSString s) a = Inr r)
       \<and> extractAPIInfo JSUndefined = \<lparr>brainAPI = [], helmAPI = [], examples = []\<rparr>
       \<and> extractAPIInfo JSNull = \<lparr>brainAPI = [], helmAPI = [], examples = []\<rparr>
       \<and> extractAPIInfo (JSNumber n) = \<lparr>brainAPI = [], helmAPI = [], examples = []\<rparr>
       \<and> extractAPIInfo (JSBoolean b) = \<lparr>brainAPI = [], helmAPI = [], examples = []\<rparr>"
proof -
  have b: "brainAPIMatch html = None"
    using nb section_heading[of "''brain api''" _ html] unfolding brainAPIMatch_def
    by (cases "match_first (section_m ''brain api'' [''helm api'', ''on this page'']) html") auto
  have h: "helmAPIMatch html = None"
    using nh section_heading[of "''helm api''" _ html] unfolding helmAPIMatch_def
    by (cases "match_first (section_m ''helm api'' [''on this page'']) html") auto
  have 1: "extractAPIInfo (JSString html) =
           \<lparr>brainAPI = [], helmAPI = [], examples = examples_of (extractCodeBlocks html)\<rparr>"
    by (simp add: extractAPIInfo_def extractAPIInfo_try_def str_of_def b h Let_def)
  have 2: "\<exists>r. extractAPIInfo_try (JSString s) a = Inr r"
    by (simp add: extractAPIInfo_try_def str_of_def Let_def)
  have 3: "extractAPIInfo JSUndefined = \<lparr>brainAPI = [], helmAPI = [], examples = []\<rparr>"
    "extractAPIInfo JSNull = \<lparr>brainAPI = [], helmAPI = [], examples = []\<rparr>"
    "extractAPIInfo (JSNumber n) = \<lparr>brainAPI = [], helmAPI = [], examples = []\<rparr>"
    "extractAPIInfo (JSBoolean b) = \<lparr>brainAPI = [], helmAPI = [], examples = []\<rparr>"
    by (simp_all add: extractAPIInfo_def extractAPIInfo_try_def str_of_def Let_def)
  show ?thesis using 1 2 3 by blast
qed

theorem extractAPIInfo_no_sections_witness:
  "extractAPIInfo (JSString code_page) =
     \<lparr>brainAPI = [], helmAPI = [],
      examples = [\<lparr>title = ''Example 1'', code = ''a\<newline>b\<newline>c'', language = ''typescript''\<rparr>,
                  \<lparr>title = ''Example 2'', code = ''a\<newline>b\<newline>c'', language = ''typescript''\<rparr>]\<rparr>"
proof -
  have "find_idx (ci_prefix ''brain api'') code_page = None" by code_simp
  then have nb: "\<not> has_heading ''brain api'' code_page" using has_heading_occurs by blast
  have "find_idx (ci_prefix ''helm api'') code_page = None" by code_simp
  then have nh: "\<not> has_heading ''helm api'' code_page" using has_heading_occurs by blast
  have e: "examples_of (extractCodeBlocks code_page) =
      [\<lparr>title = ''Example 1'', code = ''a\<newline>b\<newline>c'', language = ''typescript''\<rparr>,
       \<lparr>title = ''Example 2'', code = ''a\<newline>b\<newline>c'', language = ''typescript''\<rparr>]"
    by code_simp
  from extractAPIInfo_no_sections[OF nb nh] show ?thesis unfolding e by blast
qed

section \<open>Properties of htmlToText\<close>

lemma ci_prefix_nth:
  "ci_prefix p s \<Longrightarrow> k < length p \<Longrightarrow> p ! k = lowerc (s ! k)"
proof -
  assume a: "ci_prefix p s" and k: "k < length p"
  then have l: "length p \<le> length s" and m: "map lowerc (take (length p) s) = p"
    by (simp_all add: ci_prefix_iff)
  have "p ! k = map lowerc (take (length p) s) ! k" using m by simp
  also have "\<dots> = lowerc (s ! k)" using k l by simp
  finally show ?thesis .
qed

lemma ci_prefix_append_long:
  "length p \<le> length xs \<Longrightarrow> ci_prefix p (xs @ ys) = ci_prefix p xs"
  by (simp add: ci_prefix_iff)

lemma lowerc_lt [simp]: "lowerc (CHR ''<'') = CHR ''<''"
  by (simp add: lowerc_def)

lemma lowerc_eq_lt: "lowerc c = CHR ''<'' \<Longrightarrow> c = CHR ''<''"
proof (cases "65 \<le> (of_char c :: nat) \<and> (of_char c :: nat) \<le> 90")
  case True
  assume "lowerc c = CHR ''<''"
  then have "char_of ((of_char c :: nat) + 32) = CHR ''<''" using True by (simp add: lowerc_def)
  then have "(of_char (char_of ((of_char c :: nat) + 32) :: char) :: nat) = of_char (CHR ''<'')" by simp
  then have "((of_char c :: nat) + 32) mod 256 = 60" by simp
  then show ?thesis using True by simp
next
  case False
  assume "lowerc c = CHR ''<''"
  then show ?thesis using False by (simp add: lowerc_def Let_def)
qed

text \<open>A pattern that opens with its only bracket cannot start in xs and run into a following bracket.\<close>

lemma no_straddle:
  assumes none: "find_idx (ci_prefix (CHR ''<'' # q)) xs = None"
    and q: "CHR ''<'' \<notin> set q"
    and i: "i < length xs"
  shows "\<not> ci_prefix (CHR ''<'' # q) (drop i (xs @ CHR ''<'' # ys))"
proof
  let ?p = "CHR ''<'' # q"
  let ?k = "length xs - i"
  assume a: "ci_prefix ?p (drop i (xs @ CHR ''<'' # ys))"
  have d: "drop i (xs @ CHR ''<'' # ys) = drop i xs @ CHR ''<'' # ys" using i by simp
  show False
  proof (cases "length ?p \<le> ?k")
    case True
    then have "ci_prefix ?p (drop i xs)"
      using a unfolding d by (subst (asm) ci_prefix_append_long) simp_all
    moreover have "\<not> ci_prefix ?p (drop i xs)"
      using none i by (simp add: find_idx_None)
    ultimately show False by blast
  next
    case False
    then have k: "?k < length ?p" by simp
    have "?p ! ?k = lowerc ((drop i xs @ CHR ''<'' # ys) ! ?k)"
      using ci_prefix_nth[OF a k] unfolding d .
    also have "(drop i xs @ CHR ''<'' # ys) ! ?k = CHR ''<''"
      by (simp add: nth_append)
    finally have "?p ! ?k = CHR ''<''" by simp
    moreover have "0 < ?k" using i by simp
    ultimately have "q ! (?k - 1) = CHR ''<''" by (cases ?k) auto
    moreover have "?k - 1 < length q" using k i by simp
    ultimately show False using q nth_mem by metis
  qed
qed

lemma block_m_None: "\<not> ci_prefix (CHR ''<'' # nm) s \<Longrightarrow> block_m nm s = None"
  by (simp add: block_m_def)

lemma block_m_block:
  assumes opn: "map lowerc opn = CHR ''<'' # nm"
    and cls: "map lowerc cls = ''</'' @ nm @ ''>''"
    and nm: "CHR ''<'' \<notin> set nm"
    and body: "find_idx (ci_prefix (''</'' @ nm @ ''>'')) bdy = None"
  shows "block_m nm (opn @ bdy @ cls @ post) = Some (length opn + length bdy + length cls)"
proof -
  have lo: "length opn = Suc (length nm)" using opn by (metis length_Cons length_map)
  have lc: "length cls = length nm + 3" using cls by (metis length_append length_map length_Cons list.size(3) add.commute add_Suc_right numeral_3_eq_3 add_2_eq_Suc' One_nat_def Suc_eq_plus1 add.assoc)
  have p: "ci_prefix (CHR ''<'' # nm) (opn @ bdy @ cls @ post)"
    using opn lo by (simp add: ci_prefix_iff)
  have dr: "drop (Suc (length nm)) (opn @ bdy @ cls @ post) = bdy @ cls @ post"
    using lo by simp
  obtain c0 cs where c0: "cls = c0 # cs" using lc by (cases cls) auto
  then have "lowerc c0 = CHR ''<''" using cls by simp
  then have c0lt: "c0 = CHR ''<''" by (rule lowerc_eq_lt)
  have q: "CHR ''<'' \<notin> set (''/'' @ nm @ ''>'')" using nm by simp
  have "find_idx (ci_prefix (''</'' @ nm @ ''>'')) (bdy @ cls @ post) = Some (length bdy)"
  proof -
    have 1: "ci_prefix (''</'' @ nm @ ''>'') (drop (length bdy) (bdy @ cls @ post))"
      using cls lc by (simp add: ci_prefix_iff)
    have 2: "\<forall>i < length bdy. \<not> ci_prefix (''</'' @ nm @ ''>'') (drop i (bdy @ cls @ post))"
    proof (intro allI impI)
      fix i assume i: "i < length bdy"
      have "find_idx (ci_prefix (CHR ''<'' # (''/'' @ nm @ ''>''))) bdy = None" using body by simp
      from no_straddle[OF this q i, of "cs @ post"]
      show "\<not> ci_prefix (''</'' @ nm @ ''>'') (drop i (bdy @ cls @ post))"
        unfolding c0 c0lt by simp
    qed
    show ?thesis using 1 2 by (simp add: find_idx_Some)
  qed
  then show ?thesis using p dr lo lc by (simp add: block_m_def)
qed

lemma replace_block:
  assumes opn: "map lowerc opn = CHR ''<'' # nm"
    and cls: "map lowerc cls = ''</'' @ nm @ ''>''"
    and nm: "CHR ''<'' \<notin> set nm"
    and pre: "find_idx (ci_prefix (CHR ''<'' # nm)) pre = None"
    and body: "find_idx (ci_prefix (''</'' @ nm @ ''>'')) bdy = None"
  shows "replace_all (block_m nm) [] (pre @ opn @ bdy @ cls @ post) = pre @ replace_all (block_m nm) [] post"
proof -
  obtain o0 os where o0: "opn = o0 # os" using opn by (cases opn) auto
  then have "lowerc o0 = CHR ''<''" using opn by simp
  then have o0lt: "o0 = CHR ''<''" by (rule lowerc_eq_lt)
  have skip: "\<forall>i < length pre. block_m nm (drop i (pre @ opn @ bdy @ cls @ post)) = None"
  proof (intro allI impI)
    fix i assume i: "i < length pre"
    from no_straddle[OF pre nm i, of "os @ bdy @ cls @ post"]
    show "block_m nm (drop i (pre @ opn @ bdy @ cls @ post)) = None"
      unfolding o0 o0lt by (intro block_m_None) simp
  qed
  have hit: "block_m nm (opn @ bdy @ cls @ post) = Some (length opn + length bdy + length cls)"
    by (rule block_m_block[OF opn cls nm body])
  have pos: "0 < length opn + length bdy + length cls" using o0 by simp
  have ne: "opn @ bdy @ cls @ post \<noteq> []" using o0 by simp
  have "replace_all (block_m nm) [] (opn @ bdy @ cls @ post) = replace_all (block_m nm) [] post"
    using replace_all_hit[of "block_m nm" "opn @ bdy @ cls @ post" "length opn + length bdy + length cls" "[]"]
      hit pos ne by simp
  then show ?thesis using replace_all_skip[OF skip, of "[]"] by simp
qed

lemma replace_none:
  assumes "find_idx (ci_prefix (CHR ''<'' # nm)) s = None"
  shows "replace_all (block_m nm) [] s = s"
proof -
  have "\<forall>i < length s. block_m nm (drop i (s @ [])) = None"
    using assms by (auto simp: find_idx_None intro!: block_m_None)
  moreover have "block_m nm [] = None" by (simp add: block_m_def)
  ultimately show ?thesis using replace_all_skip[of s "block_m nm" "[]" "[]"] by simp
qed

lemma replace_blocks:
  assumes nm: "CHR ''<'' \<notin> set nm"
  shows "list_all (\<lambda>(b, t). is_block nm b) bs \<Longrightarrow> list_all (no_open nm) (texts t0 bs) \<Longrightarrow>
           replace_all (block_m nm) [] (with_blocks t0 bs) = concat (texts t0 bs)"
proof (induction bs arbitrary: t0)
  case Nil
  then show ?case using replace_none[of nm t0] by (simp add: texts_def no_open_def)
next
  case (Cons x bs)
  obtain opn bdy cls t' where x: "x = ((opn, bdy, cls), t')" by (metis prod.exhaust)
  have b: "map lowerc opn = CHR ''<'' # nm" "map lowerc cls = ''</'' @ nm @ ''>''"
      "find_idx (ci_prefix (''</'' @ nm @ ''>'')) bdy = None"
    using Cons.prems(1) by (simp_all add: x is_block_def)
  have t0: "find_idx (ci_prefix (CHR ''<'' # nm)) t0 = None"
    using Cons.prems(2) by (simp add: texts_def no_open_def)
  have ih: "replace_all (block_m nm) [] (with_blocks t' bs) = concat (texts t' bs)"
    using Cons.IH[of t'] Cons.prems by (simp add: x texts_def)
  have "replace_all (block_m nm) [] (t0 @ opn @ bdy @ cls @ with_blocks t' bs)
          = t0 @ replace_all (block_m nm) [] (with_blocks t' bs)"
    by (rule replace_block[OF b(1) b(2) nm t0 b(3)])
  then show ?case by (simp add: x ih texts_def)
qed

text \<open>
  C7, as the code has it. Take a page that is a sequence of texts and script blocks: no
  text has \<open><script\<close> in it, and every block runs from a \<open><script\<close> to the first
  \<open></script>\<close> after it (both in any case of the letters). The first step of htmlToText
  leaves exactly the texts. If what is left is in the same way a sequence of texts
  without \<open><style\<close> and of style blocks, the second step leaves the texts of that
  sequence, and the output is what the remaining steps make of them: it is the same
  whatever stands inside the script and style blocks, and however many there are.
\<close>

theorem htmlToText_blocks_removed:
  assumes sb: "list_all (\<lambda>(b, t). is_block ''script'' b) scripts"
    and st: "list_all (no_open ''script'') (texts t0 scripts)"
    and rest: "concat (texts t0 scripts) = with_blocks u0 styles"
    and yb: "list_all (\<lambda>(b, t). is_block ''style'' b) styles"
    and yt: "list_all (no_open ''style'') (texts u0 styles)"
  shows "withoutScripts (with_blocks t0 scripts) = concat (texts t0 scripts)
       \<and> withoutStyles (withoutScripts (with_blocks t0 scripts)) = concat (texts u0 styles)
       \<and> htmlToText (with_blocks t0 scripts) = afterBlocks (concat (texts u0 styles))"
proof -
  have 1: "withoutScripts (with_blocks t0 scripts) = concat (texts t0 scripts)"
    unfolding withoutScripts_def by (rule replace_blocks[OF _ sb st]) simp
  have 2: "withoutStyles (with_blocks u0 styles) = concat (texts u0 styles)"
    unfolding withoutStyles_def by (rule replace_blocks[OF _ yb yt]) simp
  show ?thesis unfolding htmlToText_def 1 rest 2 by simp
qed

theorem htmlToText_blocks_removed_witness:
  "htmlToText ''<p>Hi</p><SCRIPT>var a = 1;</Script><style>.x{}</style><p>there</p><script src=x></script>!<STYLE>p{}</STYLE>''
     = ''Hi\<newline>there\<newline>!''
   \<and> htmlToText ''<style>a<script>b</script>c</style>d<script>e</script>'' = ''d''"
proof -
  define scripts :: "(block \<times> string) list" where
    "scripts = [((''<SCRIPT'', ''>var a = 1;'', ''</Script>''), ''<style>.x{}</style><p>there</p>''),
                ((''<script'', '' src=x>'', ''</script>''), ''!<STYLE>p{}</STYLE>'')]"
  define styles :: "(block \<times> string) list" where
    "styles = [((''<style'', ''>.x{}'', ''</style>''), ''<p>there</p>!''),
               ((''<STYLE'', ''>p{}'', ''</STYLE>''), [])]"
  have sb: "list_all (\<lambda>(b, t). is_block ''script'' b) scripts"
    and st: "list_all (no_open ''script'') (texts ''<p>Hi</p>'' scripts)"
    and rest: "concat (texts ''<p>Hi</p>'' scripts) = with_blocks ''<p>Hi</p>'' styles"
    and yb: "list_all (\<lambda>(b, t). is_block ''style'' b) styles"
    and yt: "list_all (no_open ''style'') (texts ''<p>Hi</p>'' styles)"
    unfolding scripts_def styles_def by code_simp+
  have p: "with_blocks ''<p>Hi</p>'' scripts
      = ''<p>Hi</p><SCRIPT>var a = 1;</Script><style>.x{}</style><p>there</p><script src=x></script>!<STYLE>p{}</STYLE>''"
    unfolding scripts_def by simp
  have r: "afterBlocks (concat (texts ''<p>Hi</p>'' styles)) = ''Hi\<newline>there\<newline>!''"
    unfolding styles_def by code_simp
  define scripts' :: "(block \<times> string) list" where
    "scripts' = [((''<script'', ''>b'', ''</script>''), ''c</style>d''),
                 ((''<script'', ''>e'', ''</script>''), [])]"
  define styles' :: "(block \<times> string) list" where
    "styles' = [((''<style'', ''>ac'', ''</style>''), ''d'')]"
  have sb': "list_all (\<lambda>(b, t). is_block ''script'' b) scripts'"
    and st': "list_all (no_open ''script'') (texts ''<style>a'' scripts')"
    and rest': "concat (texts ''<style>a'' scripts') = with_blocks [] styles'"
    and yb': "list_all (\<lambda>(b, t). is_block ''style'' b) styles'"
    and yt': "list_all (no_open ''style'') (texts [] styles')"
    unfolding scripts'_def styles'_def by code_simp+
  have p': "with_blocks ''<style>a'' scripts' = ''<style>a<script>b</script>c</style>d<script>e</script>''"
    unfolding scripts'_def by simp
  have r': "afterBlocks (concat (texts [] styles')) = ''d''"
    unfolding styles'_def by code_simp
  from htmlToText_blocks_removed[OF sb st rest yb yt] htmlToText_blocks_removed[OF sb' st' rest' yb' yt']
  show ?thesis unfolding p r p' r' by simp
qed

text \<open>
  C7 as stated fails. The page below holds a style block, \<open><style>A<script>B</style>\<close>;
  the script pattern is applied first and takes \<open><script>B</style>C</script>\<close> away,
  the style pattern then finds no closing tag, and the \<open>A\<close> of the style block is in
  the output. A script whose closing tag is written \<open></script >\<close> is not matched by
  the pattern either.
\<close>

theorem htmlToText_leak_counterexample:
  "block_m ''style'' ''<style>A<script>B</style>C</script>D'' = Some 25
   \<and> take 25 ''<style>A<script>B</style>C</script>D'' = ''<style>A<script>B</style>''
   \<and> htmlToText ''<style>A<script>B</style>C</script>D'' = ''AD''
   \<and> htmlToText ''<script>alert(1)</script >'' = ''alert(1)''"
  by code_simp

section \<open>Text without an opening bracket\<close>

text \<open>
  The patterns of the tags all begin with an opening bracket, so a scan passes over a
  stretch of text that has none.
\<close>

lemma ci_prefix_anch: "ci_prefix (CHR ''<'' # q) s \<Longrightarrow> \<exists>r. s = CHR ''<'' # r"
  by (cases s) (auto dest: lowerc_eq_lt)

lemma cs_prefix_anch: "cs_prefix (CHR ''<'' # q) s \<Longrightarrow> \<exists>r. s = CHR ''<'' # r"
  by (cases s) auto

lemma free_skip:
  assumes anch: "\<And>s. m s \<noteq> None \<Longrightarrow> \<exists>r. s = CHR ''<'' # r"
    and free: "CHR ''<'' \<notin> set xs"
  shows "\<forall>i < length xs. m (drop i (xs @ ys)) = None"
proof (intro allI impI)
  fix i assume i: "i < length xs"
  then have d: "drop i (xs @ ys) = xs ! i # drop (Suc i) xs @ ys"
    by (simp add: Cons_nth_drop_Suc)
  have ne: "xs ! i \<noteq> CHR ''<''" using free i nth_mem by metis
  show "m (drop i (xs @ ys)) = None"
  proof (cases "m (drop i (xs @ ys))")
    case None
    then show ?thesis .
  next
    case (Some y)
    then obtain r where "drop i (xs @ ys) = CHR ''<'' # r" using anch[of "drop i (xs @ ys)"] by auto
    then show ?thesis using ne unfolding d by simp
  qed
qed

lemma free_skip_pred:
  assumes anch: "\<And>s. P s \<Longrightarrow> \<exists>r. s = CHR ''<'' # r"
    and free: "CHR ''<'' \<notin> set xs"
  shows "\<forall>i < length xs. \<not> P (drop i (xs @ ys))"
proof (intro allI impI)
  fix i assume i: "i < length xs"
  then have d: "drop i (xs @ ys) = xs ! i # drop (Suc i) xs @ ys"
    by (simp add: Cons_nth_drop_Suc)
  have ne: "xs ! i \<noteq> CHR ''<''" using free i nth_mem by metis
  show "\<not> P (drop i (xs @ ys))"
  proof
    assume "P (drop i (xs @ ys))"
    then obtain r where "drop i (xs @ ys) = CHR ''<'' # r" using anch[of "drop i (xs @ ys)"] by auto
    then show False using ne unfolding d by simp
  qed
qed


lemma replace_all_free:
  assumes "\<And>s. m s \<noteq> None \<Longrightarrow> \<exists>r. s = CHR ''<'' # r" and "CHR ''<'' \<notin> set xs"
  shows "replace_all m rep (xs @ ys) = xs @ replace_all m rep ys"
  by (rule replace_all_skip[OF free_skip[OF assms]])


lemma match_first_free:
  assumes "\<And>s. m s \<noteq> None \<Longrightarrow> \<exists>r. s = CHR ''<'' # r" and "CHR ''<'' \<notin> set xs"
  shows "match_first m (xs @ ys) = match_first m ys"
  by (rule match_first_skip[OF free_skip[OF assms]])


lemma open_tag_anch: "open_tag nm s \<noteq> None \<Longrightarrow> \<exists>r. s = CHR ''<'' # r"
  by (auto simp: open_tag_def dest: ci_prefix_anch split: if_splits)

lemma block_m_anch: "block_m nm s \<noteq> None \<Longrightarrow> \<exists>r. s = CHR ''<'' # r"
  by (auto simp: block_m_def dest: ci_prefix_anch split: if_splits)

lemma block_close_m_anch: "block_close_m s \<noteq> None \<Longrightarrow> \<exists>r. s = CHR ''<'' # r"
  by (cases s) (auto simp: block_close_m_def split: if_splits)

lemma br_m_anch: "br_m s \<noteq> None \<Longrightarrow> \<exists>r. s = CHR ''<'' # r"
  by (auto simp: br_m_def dest: ci_prefix_anch split: if_splits)

lemma tag_m_anch: "tag_m s \<noteq> None \<Longrightarrow> \<exists>r. s = CHR ''<'' # r"
  by (auto simp: tag_m_def split: list.splits if_splits)

lemma tag_to_end_anch: "tag_to_end s \<Longrightarrow> \<exists>r. s = CHR ''<'' # r"
  using tag_m_anch[of s] by (auto simp: tag_to_end_def split: option.splits)

lemma pre_code_m_anch: "pre_code_m s \<noteq> None \<Longrightarrow> \<exists>r. s = CHR ''<'' # r"
  using open_tag_anch[of "''pre''" s] by (auto simp: pre_code_m_def split: option.splits)

lemma code_m_anch: "code_m s \<noteq> None \<Longrightarrow> \<exists>r. s = CHR ''<'' # r"
  using open_tag_anch[of "''code''" s] by (auto simp: code_m_def split: option.splits)

lemma tag_m_at:
  "CHR ''>'' \<notin> set t \<Longrightarrow> t \<noteq> [] \<Longrightarrow> tag_m (CHR ''<'' # t @ CHR ''>'' # r) = Some (length t + 2)"
proof -
  assume a: "CHR ''>'' \<notin> set t" and n: "t \<noteq> []"
  have "takeWhile (\<lambda>c. c \<noteq> CHR ''>'') (t @ CHR ''>'' # r) = t"
    using a by (induction t) auto
  then show ?thesis using n by (simp add: tag_m_def)
qed

lemma takeWhile_all: "\<forall>x\<in>set xs. P x \<Longrightarrow> takeWhile P xs = xs"
  by (simp add: takeWhile_eq_all_conv)

lemma tag_m_open: "CHR ''>'' \<notin> set t \<Longrightarrow> tag_m (CHR ''<'' # t) = None"
proof -
  assume "CHR ''>'' \<notin> set t"
  then have "\<forall>x\<in>set t. x \<noteq> CHR ''>''" by blast
  from takeWhile_all[OF this] show ?thesis
    by (simp add: tag_m_def Let_def del: takeWhile_eq_all_conv)
qed

text \<open>The passes of htmlToText on a text without an opening bracket.\<close>

lemma withoutScripts_free: "CHR ''<'' \<notin> set s \<Longrightarrow> withoutScripts s = s"
  using replace_all_free[of "block_m ''script''" s "[]" "[]", OF block_m_anch]
  by (simp add: withoutScripts_def block_m_def)

lemma withoutStyles_free: "CHR ''<'' \<notin> set s \<Longrightarrow> withoutStyles s = s"
  using replace_all_free[of "block_m ''style''" s "[]" "[]", OF block_m_anch]
  by (simp add: withoutStyles_def block_m_def)

lemma withBreaks_free: "CHR ''<'' \<notin> set s \<Longrightarrow> withBreaks s = s"
  using replace_all_free[of block_close_m s "[CHR 0x0A]" "[]", OF block_close_m_anch]
    replace_all_free[of br_m s "[CHR 0x0A]" "[]", OF br_m_anch]
  by (simp add: withBreaks_def block_close_m_def br_m_def)

lemma stripped_free: "CHR ''<'' \<notin> set s \<Longrightarrow> stripped s = s"
  using replace_all_free[of tag_m s "[]" "[]", OF tag_m_anch]
  by (simp add: stripped_def tag_m_def)

lemma htmlToText_free:
  "CHR ''<'' \<notin> set s \<Longrightarrow>
     htmlToText s = trim (replace_all newlines_m [CHR 0x0A, CHR 0x0A] (decoded s))"
  by (simp add: htmlToText_def afterBlocks_def withoutScripts_free withoutStyles_free
        withBreaks_free stripped_free)

section \<open>Markup in pieces\<close>

lemma replace_all_miss:
  "m (c # cs) = None \<Longrightarrow> replace_all m rep (c # cs) = c # replace_all m rep cs"
  by simp




lemma anch_nil:
  assumes "\<And>s. m s \<noteq> None \<Longrightarrow> \<exists>r. s = CHR ''<'' # r"
  shows "m [] = None"
proof (cases "m []")
  case None
  then show ?thesis .
next
  case (Some y)
  then show ?thesis using assms[of "[]"] by simp
qed

lemma lowerc_gt [simp]: "lowerc (CHR ''>'') = CHR ''>''"
  by (simp add: lowerc_def)

lemma lowerc_eq_gt: "lowerc c = CHR ''>'' \<Longrightarrow> c = CHR ''>''"
proof (cases "65 \<le> (of_char c :: nat) \<and> (of_char c :: nat) \<le> 90")
  case True
  assume "lowerc c = CHR ''>''"
  then have "char_of ((of_char c :: nat) + 32) = CHR ''>''" using True by (simp add: lowerc_def)
  then have "(of_char (char_of ((of_char c :: nat) + 32) :: char) :: nat) = of_char (CHR ''>'')" by simp
  then have "((of_char c :: nat) + 32) mod 256 = 62" by simp
  then show ?thesis using True by simp
next
  case False
  assume "lowerc c = CHR ''>''"
  then show ?thesis using False by (simp add: lowerc_def)
qed

lemma lowerc_gt_iff: "lowerc c = CHR ''>'' \<longleftrightarrow> c = CHR ''>''" "CHR ''>'' = lowerc c \<longleftrightarrow> c = CHR ''>''"
  using lowerc_eq_gt[of c] by auto

lemma lowerc_lt_iff: "lowerc c = CHR ''<'' \<longleftrightarrow> c = CHR ''<''" "CHR ''<'' = lowerc c \<longleftrightarrow> c = CHR ''<''"
  using lowerc_eq_lt[of c] by auto

lemma map_lowerc_gt: "CHR ''>'' \<notin> set (map lowerc i) \<longleftrightarrow> CHR ''>'' \<notin> set i"
  by (induction i) (auto simp: lowerc_gt_iff)

lemma map_lowerc_lt: "CHR ''<'' \<notin> set (map lowerc i) \<longleftrightarrow> CHR ''<'' \<notin> set i"
  by (induction i) (auto simp: lowerc_lt_iff)

text \<open>A pattern without a closing bracket is tested on the inner of the tag alone.\<close>

lemma ci_prefix_inner:
  "CHR ''>'' \<notin> set p \<Longrightarrow> ci_prefix p (i @ CHR ''>'' # r) = ci_prefix p i"
  by (induction p i rule: ci_prefix.induct) auto

text \<open>A pattern that ends at the closing bracket names the tag.\<close>

lemma ci_prefix_whole:
  "CHR ''>'' \<notin> set n \<Longrightarrow> CHR ''>'' \<notin> set i \<Longrightarrow>
     ci_prefix (n @ CHR ''>'' # q) (i @ CHR ''>'' # r) = (map lowerc i = n \<and> ci_prefix q r)"
proof (induction n i rule: ci_prefix.induct)
  case (1 s)
  then show ?case by (cases s) (auto dest: lowerc_eq_gt)
next
  case (2 p ps)
  then show ?case by auto
next
  case (3 p ps c cs)
  then show ?case by auto
qed

text \<open>A scan passes over pieces whose tags the pattern does not match.\<close>

lemma pieces_skip:
  assumes anch: "\<And>s. Q s \<Longrightarrow> \<exists>r. s = CHR ''<'' # r"
  shows "list_all well_formed ps \<Longrightarrow>
         (\<And>i r. Tag i \<in> set ps \<Longrightarrow> \<not> Q (CHR ''<'' # i @ CHR ''>'' # r @ z)) \<Longrightarrow>
         k < length (render ps) \<Longrightarrow> \<not> Q (drop k (render ps @ z))"
proof (induction ps arbitrary: k)
  case Nil
  then show ?case by (simp add: render_def)
next
  case (Cons p ps)
  have r: "render (p # ps) = render_piece p @ render ps" by (simp add: render_def)
  have ih: "\<not> Q (drop j (render ps @ z))" if "j < length (render ps)" for j
    using Cons.IH[OF _ _ that] Cons.prems(1,2) by simp
  show ?case
  proof (cases "k < length (render_piece p)")
    case True
    show ?thesis
    proof (cases p)
      case (Text t)
      have f: "CHR ''<'' \<notin> set t" using Cons.prems(1) Text by simp
      have "\<forall>i < length t. \<not> Q (drop i (t @ render ps @ z))"
        by (rule free_skip_pred[OF anch f])
      then show ?thesis using True Text unfolding r by simp
    next
      case (Tag i)
      have w: "CHR ''<'' \<notin> set (i @ ''>'')" using Cons.prems(1) Tag by simp
      show ?thesis
      proof (cases k)
        case 0
        have "\<not> Q (CHR ''<'' # i @ CHR ''>'' # render ps @ z)"
          using Cons.prems(2)[of i "render ps"] Tag by simp
        then show ?thesis using 0 Tag unfolding r by simp
      next
        case (Suc j)
        have j: "j < length (i @ ''>'')" using True Tag Suc by simp
        have "\<forall>i' < length (i @ ''>''). \<not> Q (drop i' ((i @ ''>'') @ render ps @ z))"
          by (rule free_skip_pred[OF anch w])
        from this[rule_format, OF j] show ?thesis using Suc Tag unfolding r by simp
      qed
    qed
  next
    case False
    then have "k - length (render_piece p) < length (render ps)"
      using Cons.prems(3) unfolding r by simp
    from ih[OF this] show ?thesis using False unfolding r by simp
  qed
qed

text \<open>
  A replacement on pieces, by a pattern that matches whole tags: the tags that it
  matches are replaced, everything else is kept.
\<close>

definition subst :: "(string \<Rightarrow> bool) \<Rightarrow> string \<Rightarrow> piece \<Rightarrow> piece" where
  "subst g rep p = (case p of Text t \<Rightarrow> Text t | Tag i \<Rightarrow> if g i then Text rep else Tag i)"

lemma replace_pieces:
  assumes anch: "\<And>s. m s \<noteq> None \<Longrightarrow> \<exists>r. s = CHR ''<'' # r"
  shows "list_all well_formed ps \<Longrightarrow>
         (\<And>i r. Tag i \<in> set ps \<Longrightarrow>
            m (CHR ''<'' # i @ CHR ''>'' # r) = (if g i then Some (length i + 2) else None)) \<Longrightarrow>
         replace_all m rep (render ps @ z) = render (map (subst g rep) ps) @ replace_all m rep z"
proof (induction ps)
  case Nil
  then show ?case by (simp add: render_def)
next
  case (Cons p ps)
  have r: "render (p # ps) = render_piece p @ render ps"
    "render (map (subst g rep) (p # ps)) = render_piece (subst g rep p) @ render (map (subst g rep) ps)"
    by (simp_all add: render_def)
  have ih: "replace_all m rep (render ps @ z) = render (map (subst g rep) ps) @ replace_all m rep z"
    using Cons.IH Cons.prems by simp
  show ?case
  proof (cases p)
    case (Text t)
    have f: "CHR ''<'' \<notin> set t" using Cons.prems(1) Text by simp
    have "replace_all m rep (t @ render ps @ z) = t @ replace_all m rep (render ps @ z)"
      by (rule replace_all_free[OF anch f])
    then show ?thesis using Text ih unfolding r by (simp add: subst_def)
  next
    case (Tag i)
    have w: "CHR ''<'' \<notin> set (i @ ''>'')" using Cons.prems(1) Tag by simp
    have at: "m (CHR ''<'' # i @ CHR ''>'' # render ps @ z) = (if g i then Some (length i + 2) else None)"
      using Cons.prems(2)[of i "render ps @ z"] Tag by simp
    show ?thesis
    proof (cases "g i")
      case True
      have "replace_all m rep (CHR ''<'' # i @ CHR ''>'' # render ps @ z)
          = rep @ replace_all m rep (drop (length i + 2) (CHR ''<'' # i @ CHR ''>'' # render ps @ z))"
        by (rule replace_all_hit) (use at True in simp_all)
      then show ?thesis using Tag True ih unfolding r by (simp add: subst_def)
    next
      case False
      have 1: "replace_all m rep (CHR ''<'' # i @ CHR ''>'' # render ps @ z)
          = CHR ''<'' # replace_all m rep ((i @ ''>'') @ render ps @ z)"
        using at False by simp
      have 2: "replace_all m rep ((i @ ''>'') @ render ps @ z) = (i @ ''>'') @ replace_all m rep (render ps @ z)"
        by (rule replace_all_free[OF anch w])
      show ?thesis using Tag False ih 1 2 unfolding r by (simp add: subst_def)
    qed
  qed
qed

lemma replace_pieces_all:
  assumes anch: "\<And>s. m s \<noteq> None \<Longrightarrow> \<exists>r. s = CHR ''<'' # r"
    and wf: "list_all well_formed ps"
    and tag: "\<And>i r. Tag i \<in> set ps \<Longrightarrow>
            m (CHR ''<'' # i @ CHR ''>'' # r) = (if g i then Some (length i + 2) else None)"
  shows "replace_all m rep (render ps) = render (map (subst g rep) ps)"
proof -
  have n: "m [] = None" by (rule anch_nil[OF anch])
  show ?thesis using replace_pieces[OF anch wf tag, where z="[]" and rep=rep] n by simp
qed

text \<open>The patterns of htmlToText on one tag.\<close>

lemma block_m_tag:
  "CHR ''>'' \<notin> set nm \<Longrightarrow> \<not> ci_prefix nm i \<Longrightarrow> block_m nm (CHR ''<'' # i @ CHR ''>'' # r) = None"
  by (rule block_m_None) (simp add: ci_prefix_inner)

lemma find_name:
  assumes i: "CHR ''>'' \<notin> set i"
  shows "\<forall>n \<in> set ns. CHR ''>'' \<notin> set n \<Longrightarrow>
     find (\<lambda>n. ci_prefix (n @ ''>'') (i @ CHR ''>'' # r)) ns
       = (if map lowerc i \<in> set ns then Some (map lowerc i) else None)"
proof (induction ns)
  case Nil
  then show ?case by simp
next
  case (Cons n ns)
  have "ci_prefix (n @ CHR ''>'' # []) (i @ CHR ''>'' # r) = (map lowerc i = n \<and> ci_prefix [] r)"
    by (rule ci_prefix_whole) (use Cons.prems i in simp_all)
  then have "ci_prefix (n @ ''>'') (i @ CHR ''>'' # r) = (map lowerc i = n)" by simp
  then show ?case using Cons by auto
qed

lemma close_h_inner:
  "CHR ''>'' \<notin> set i \<Longrightarrow>
     close_h (i @ CHR ''>'' # r) = (case i of [h, l] \<Rightarrow> lowerc h = CHR ''h'' \<and> is_level l | _ \<Rightarrow> False)"
  by (auto simp: close_h_def is_level_def split: list.splits)

lemma block_close_m_tag:
  assumes gt: "CHR ''>'' \<notin> set i"
  shows "block_close_m (CHR ''<'' # i @ CHR ''>'' # r) = (if closes i then Some (length i + 2) else None)"
proof (cases i)
  case Nil
  then show ?thesis by (simp add: block_close_m_def closes_def)
next
  case (Cons c j)
  have j: "CHR ''>'' \<notin> set j" using gt Cons by simp
  show ?thesis
  proof (cases "c = CHR ''/''")
    case False
    then show ?thesis using Cons by (simp add: block_close_m_def closes_def)
  next
    case True
    have f1: "find (\<lambda>n. ci_prefix (n @ ''>'') (j @ CHR ''>'' # r)) close_names
        = (if map lowerc j \<in> set close_names then Some (map lowerc j) else None)"
      by (rule find_name[OF j]) (simp add: close_names_def)
    have f2: "find (\<lambda>n. ci_prefix (n @ ''>'') (j @ CHR ''>'' # r)) [''br'', ''pre'']
        = (if map lowerc j \<in> set [''br'', ''pre''] then Some (map lowerc j) else None)"
      by (rule find_name[OF j]) simp
    have h: "close_h (j @ CHR ''>'' # r) = (case j of [h, l] \<Rightarrow> lowerc h = CHR ''h'' \<and> is_level l | _ \<Rightarrow> False)"
      by (rule close_h_inner[OF j])
    have d: "drop 2 (CHR ''<'' # i @ CHR ''>'' # r) = j @ CHR ''>'' # r"
      "cs_prefix ''</'' (CHR ''<'' # i @ CHR ''>'' # r)"
      using Cons True by simp_all
    have l: "length i = Suc (length (map lowerc j))" using Cons by simp
    have e: "block_close_m (CHR ''<'' # i @ CHR ''>'' # r) =
       (if map lowerc j \<in> set close_names then Some (length i + 2)
        else if (case j of [h, l] \<Rightarrow> lowerc h = CHR ''h'' \<and> is_level l | _ \<Rightarrow> False) then Some 5
        else if map lowerc j \<in> set [''br'', ''pre''] then Some (length i + 2) else None)"
      apply (simp only: block_close_m_def d if_True Let_def f1 f2 h)
      apply (simp add: l)
      done
    have c: "closes i = (map lowerc j \<in> set close_names
        \<or> (case j of [h, l] \<Rightarrow> lowerc h = CHR ''h'' \<and> is_level l | _ \<Rightarrow> False)
        \<or> map lowerc j \<in> set [''br'', ''pre''])"
      using Cons True by (auto simp: closes_def close_names_def)
    have five: "(case j of [h, l] \<Rightarrow> lowerc h = CHR ''h'' \<and> is_level l | _ \<Rightarrow> False) \<Longrightarrow> length i + 2 = 5"
      using Cons by (auto split: list.splits)
    show ?thesis unfolding e c using five by auto
  qed
qed

lemma takeWhile_stop: "\<not> P x \<Longrightarrow> takeWhile P (j @ x # r) = takeWhile P j"
  by (induction j) auto

lemma dropWhile_stop: "\<not> P x \<Longrightarrow> dropWhile P (j @ x # r) = dropWhile P j @ x # r"
  by (induction j) auto

lemma slash_end:
  "CHR ''>'' \<notin> set d \<Longrightarrow> cs_prefix ''/>'' (d @ CHR ''>'' # r) = (d = ''/'')"
proof (cases d)
  case Nil
  then show ?thesis by simp
next
  case (Cons x e)
  assume "CHR ''>'' \<notin> set d"
  then show ?thesis using Cons by (cases e) auto
qed

lemma br_m_tag:
  assumes gt: "CHR ''>'' \<notin> set i"
  shows "br_m (CHR ''<'' # i @ CHR ''>'' # r) = (if breaks i then Some (length i + 2) else None)"
proof (cases "ci_prefix ''br'' i \<or> ci_prefix ''hr'' i")
  case False
  then have "\<not> (ci_prefix ''<br'' (CHR ''<'' # i @ CHR ''>'' # r) \<or> ci_prefix ''<hr'' (CHR ''<'' # i @ CHR ''>'' # r))"
    using ci_prefix_inner[of "''br''" i r] ci_prefix_inner[of "''hr''" i r] by simp
  then have "br_m (CHR ''<'' # i @ CHR ''>'' # r) = None" unfolding br_m_def by (simp only: if_False)
  then show ?thesis using False by (simp add: breaks_def)
next
  case True
  then have p: "ci_prefix ''<br'' (CHR ''<'' # i @ CHR ''>'' # r) \<or> ci_prefix ''<hr'' (CHR ''<'' # i @ CHR ''>'' # r)"
    using ci_prefix_inner[of "''br''" i r] ci_prefix_inner[of "''hr''" i r] by simp
  have l2: "2 \<le> length i" using True by (auto simp: ci_prefix_iff)
  define j where "j = drop 2 i"
  have j: "CHR ''>'' \<notin> set j" using gt in_set_dropD unfolding j_def by metis
  have d: "drop 3 (CHR ''<'' # i @ CHR ''>'' # r) = j @ CHR ''>'' # r"
    using l2 by (simp add: j_def)
  have ws: "\<not> is_ws (CHR ''>'')" by (simp add: is_ws_def)
  have dj: "CHR ''>'' \<notin> set (dropWhile is_ws j)" using j set_dropWhileD by metis
  have li: "length i = 2 + (length (takeWhile is_ws j) + length (dropWhile is_ws j))"
    using l2 by (simp add: j_def flip: length_append)
  have e: "br_m (CHR ''<'' # i @ CHR ''>'' # r) =
     (if dropWhile is_ws j = ''/'' then Some (3 + length (takeWhile is_ws j) + 2) else None)"
    unfolding br_m_def d Let_def
      takeWhile_stop[where P=is_ws and x="CHR ''>''", OF ws]
      dropWhile_stop[where P=is_ws and x="CHR ''>''", OF ws] slash_end[OF dj]
    using p by (simp only: if_True)
  have b: "breaks i = (dropWhile is_ws j = ''/'')" using True by (simp add: breaks_def j_def)
  show ?thesis
  proof (cases "dropWhile is_ws j = ''/''")
    case T: True
    then have "length (dropWhile is_ws j) = 1" by simp
    then have "length i + 2 = 3 + length (takeWhile is_ws j) + 2" using li by simp
    then show ?thesis unfolding e b using T by simp
  next
    case False
    then show ?thesis unfolding e b by simp
  qed
qed

text \<open>htmlToText on markup.\<close>

lemma subst_none: "map (subst (\<lambda>i. False) rep) ps = ps"
  by (induction ps) (auto simp: subst_def split: piece.splits)

lemma subst_well_formed:
  "CHR ''<'' \<notin> set rep \<Longrightarrow> list_all well_formed ps \<Longrightarrow> list_all well_formed (map (subst g rep) ps)"
  by (induction ps) (auto simp: subst_def split: piece.splits)

lemma well_formed_tag: "list_all well_formed ps \<Longrightarrow> Tag i \<in> set ps \<Longrightarrow> i \<noteq> [] \<and> CHR ''<'' \<notin> set i \<and> CHR ''>'' \<notin> set i"
  by (induction ps) auto

lemma markup_well_formed: "markup ps \<Longrightarrow> list_all well_formed ps"
  by (induction ps) (auto simp: markup_def)

lemma markup_tag: "markup ps \<Longrightarrow> Tag i \<in> set ps \<Longrightarrow> \<not> ci_prefix ''script'' i \<and> \<not> ci_prefix ''style'' i"
  by (induction ps) (auto simp: markup_def)

lemma withoutScripts_markup: "markup ps \<Longrightarrow> withoutScripts (render ps) = render ps"
proof -
  assume m: "markup ps"
  have "replace_all (block_m ''script'') [] (render ps) = render (map (subst (\<lambda>i. False) []) ps)"
  proof (rule replace_pieces_all[OF block_m_anch markup_well_formed[OF m]])
    fix i r assume "Tag i \<in> set ps"
    then have "\<not> ci_prefix ''script'' i" using markup_tag[OF m] by blast
    then show "block_m ''script'' (CHR ''<'' # i @ CHR ''>'' # r) = (if False then Some (length i + 2) else None)"
      using block_m_tag[of "''script''" i r] by simp
  qed
  then show ?thesis by (simp add: withoutScripts_def subst_none)
qed

lemma withoutStyles_markup: "markup ps \<Longrightarrow> withoutStyles (render ps) = render ps"
proof -
  assume m: "markup ps"
  have "replace_all (block_m ''style'') [] (render ps) = render (map (subst (\<lambda>i. False) []) ps)"
  proof (rule replace_pieces_all[OF block_m_anch markup_well_formed[OF m]])
    fix i r assume "Tag i \<in> set ps"
    then have "\<not> ci_prefix ''style'' i" using markup_tag[OF m] by blast
    then show "block_m ''style'' (CHR ''<'' # i @ CHR ''>'' # r) = (if False then Some (length i + 2) else None)"
      using block_m_tag[of "''style''" i r] by simp
  qed
  then show ?thesis by (simp add: withoutStyles_def subst_none)
qed

lemma withBreaks_pieces:
  assumes wf: "list_all well_formed ps"
  shows "withBreaks (render ps) = render (map (subst breaks [CHR 0x0A]) (map (subst closes [CHR 0x0A]) ps))"
proof -
  have 1: "replace_all block_close_m [CHR 0x0A] (render ps) = render (map (subst closes [CHR 0x0A]) ps)"
  proof (rule replace_pieces_all[OF block_close_m_anch wf])
    fix i r assume "Tag i \<in> set ps"
    then have "CHR ''>'' \<notin> set i" using well_formed_tag[OF wf] by blast
    then show "block_close_m (CHR ''<'' # i @ CHR ''>'' # r) = (if closes i then Some (length i + 2) else None)"
      by (rule block_close_m_tag)
  qed
  have wf': "list_all well_formed (map (subst closes [CHR 0x0A]) ps)"
    by (rule subst_well_formed[OF _ wf]) simp
  have 2: "replace_all br_m [CHR 0x0A] (render (map (subst closes [CHR 0x0A]) ps))
      = render (map (subst breaks [CHR 0x0A]) (map (subst closes [CHR 0x0A]) ps))"
  proof (rule replace_pieces_all[OF br_m_anch wf'])
    fix i r assume "Tag i \<in> set (map (subst closes [CHR 0x0A]) ps)"
    then have "CHR ''>'' \<notin> set i" using well_formed_tag[OF wf'] by blast
    then show "br_m (CHR ''<'' # i @ CHR ''>'' # r) = (if breaks i then Some (length i + 2) else None)"
      by (rule br_m_tag)
  qed
  show ?thesis unfolding withBreaks_def 1 2 ..
qed

lemma stripped_pieces:
  assumes wf: "list_all well_formed ps"
  shows "stripped (render ps) = render (map (subst (\<lambda>i. True) []) ps)"
  unfolding stripped_def
proof (rule replace_pieces_all[OF tag_m_anch wf])
  fix i r assume "Tag i \<in> set ps"
  then have "i \<noteq> [] \<and> CHR ''>'' \<notin> set i" using well_formed_tag[OF wf] by blast
  then show "tag_m (CHR ''<'' # i @ CHR ''>'' # r) = (if True then Some (length i + 2) else None)"
    using tag_m_at[of i r] by simp
qed

lemma pieces_text:
  "render (map (subst (\<lambda>i. True) []) (map (subst breaks [CHR 0x0A]) (map (subst closes [CHR 0x0A]) ps)))
     = concat (map piece_text ps)"
  by (induction ps) (auto simp: render_def subst_def split: piece.splits)

lemma htmlToText_markup:
  assumes m: "markup ps"
  shows "htmlToText (render ps) = text_of ps"
proof -
  note wf = markup_well_formed[OF m]
  have wf': "list_all well_formed (map (subst breaks [CHR 0x0A]) (map (subst closes [CHR 0x0A]) ps))"
    by (intro subst_well_formed wf) simp_all
  show ?thesis
    unfolding htmlToText_def afterBlocks_def withoutScripts_markup[OF m] withoutStyles_markup[OF m]
      withBreaks_pieces[OF wf] stripped_pieces[OF wf'] pieces_text text_of_def ..
qed

section \<open>Code blocks\<close>

lemma pushMatchText_eq:
  "pushMatchText s blocks = (if 2 < length (code_lines (code_of s)) then blocks @ [code_of s] else blocks)"
  by (simp add: pushMatchText_def code_of_def Let_def)

lemma fold_pushMatchText:
  "fold pushMatchText ms blocks = blocks @ filter (\<lambda>c. 2 < length (code_lines c)) (map code_of ms)"
  by (induction ms arbitrary: blocks) (simp_all add: pushMatchText_eq)

lemma extractCodeBlocks_eq:
  "extractCodeBlocks html = filter (\<lambda>c. 2 < length (code_lines c)) (map code_of (blockMatches html))"
  by (simp add: extractCodeBlocks_def blockMatches_def fold_pushMatchText Let_def)

text \<open>The lines that the code counts are the non-blank lines.\<close>

lemma trim_empty: "(length (trim l) > 0) = (\<exists>c \<in> set l. \<not> is_ws c)"
proof (cases "dropWhile is_ws l")
  case Nil
  then have "\<forall>c \<in> set l. is_ws c" by (simp add: dropWhile_eq_Nil_conv)
  moreover have "trim l = []" unfolding trim_def Nil by simp
  ultimately show ?thesis by simp
next
  case (Cons x xs)
  have x: "\<not> is_ws x" using hd_dropWhile[of is_ws l] Cons by simp
  have "x \<in> set (rev (dropWhile is_ws l))" using Cons by simp
  then have "dropWhile is_ws (rev (dropWhile is_ws l)) \<noteq> []"
    using x by (auto simp: dropWhile_eq_Nil_conv)
  moreover have "x \<in> set l" using Cons set_dropWhileD[of x is_ws l] by simp
  ultimately show ?thesis using x by (auto simp: trim_def)
qed

lemma split_lines_not_Nil: "split_lines s \<noteq> []"
  by (induction s) (auto split: list.splits)

lemma count_lines_split:
  "split_lines s = l # ls \<Longrightarrow>
     count_lines seen s = (if \<not> seen \<and> (\<exists>c \<in> set l. \<not> is_ws c) then 1 else 0)
                          + length (filter (\<lambda>l. \<exists>c \<in> set l. \<not> is_ws c) ls)"
proof (induction s arbitrary: l ls seen)
  case Nil
  then show ?case by simp
next
  case (Cons c cs)
  obtain l' ls' where s: "split_lines cs = l' # ls'"
    using split_lines_not_Nil[of cs] by (cases "split_lines cs") auto
  show ?case
  proof (cases "c = CHR 0x0A")
    case True
    then have "l = []" "ls = l' # ls'" using Cons.prems s by simp_all
    then show ?thesis using True Cons.IH[OF s, of False] by simp
  next
    case False
    then have l: "l = c # l'" "ls = ls'" using Cons.prems s by simp_all
    show ?thesis
    proof (cases "\<not> is_ws c \<and> \<not> seen")
      case True
      then show ?thesis using False l Cons.IH[OF s, of True] by simp
    next
      case False': False
      then show ?thesis using False l Cons.IH[OF s, of seen] by auto
    qed
  qed
qed

lemma code_lines_count: "length (code_lines s) = non_blank_lines s"
proof -
  obtain l ls where s: "split_lines s = l # ls"
    using split_lines_not_Nil[of s] by (cases "split_lines s") auto
  show ?thesis
    unfolding code_lines_def non_blank_lines_def s count_lines_split[OF s] trim_empty by simp
qed

lemma extractCodeBlocks_count:
  "extractCodeBlocks html = filter (\<lambda>c. 3 \<le> non_blank_lines c) (map code_of (blockMatches html))"
proof -
  have "(\<lambda>c. 2 < length (code_lines c)) = (\<lambda>c. 3 \<le> non_blank_lines c)"
    by (auto simp: code_lines_count)
  then show ?thesis unfolding extractCodeBlocks_eq by simp
qed

text \<open>The tags of a code block.\<close>

lemma open_tag_None: "\<not> ci_prefix (CHR ''<'' # nm) s \<Longrightarrow> open_tag nm s = None"
  by (simp add: open_tag_def)

lemma pre_code_m_None: "\<not> ci_prefix ''<pre'' s \<Longrightarrow> pre_code_m s = None"
  by (simp add: pre_code_m_def open_tag_None)

lemma code_m_None: "\<not> ci_prefix ''<code'' s \<Longrightarrow> code_m s = None"
  by (simp add: code_m_def open_tag_None)

lemma open_tag_tag:
  assumes gt: "CHR ''>'' \<notin> set i" and nm: "CHR ''>'' \<notin> set nm" and p: "ci_prefix nm i"
  shows "open_tag nm (CHR ''<'' # i @ CHR ''>'' # r) = Some r"
proof -
  have l: "length nm \<le> length i" using p by (simp add: ci_prefix_iff)
  have c: "ci_prefix (CHR ''<'' # nm) (CHR ''<'' # i @ CHR ''>'' # r)"
    using p nm by (simp add: ci_prefix_inner)
  have d: "drop (Suc (length nm)) (CHR ''<'' # i @ CHR ''>'' # r) = drop (length nm) i @ CHR ''>'' # r"
    using l by simp
  have "CHR ''>'' \<notin> set (drop (length nm) i)" using gt in_set_dropD by metis
  from after_gt_append[OF this] show ?thesis unfolding open_tag_def d using c by simp
qed

lemma ci_prefix_first: "ci_prefix (a # p) i \<Longrightarrow> ci_prefix (b # q) i \<Longrightarrow> a = b"
  by (cases i) auto

lemma ci_prefix_of_map: "map lowerc i = n \<Longrightarrow> ci_prefix p i = ci_prefix p n"
proof -
  have idem: "lowerc (lowerc c) = lowerc c" for c
  proof (cases "65 \<le> (of_char c :: nat) \<and> (of_char c :: nat) \<le> 90")
    case True
    then have "(of_char (lowerc c) :: nat) = of_char c + 32" by (simp add: lowerc_def)
    then have "\<not> (65 \<le> (of_char (lowerc c) :: nat) \<and> (of_char (lowerc c) :: nat) \<le> 90)"
      using True by simp
    then show ?thesis by (auto simp: lowerc_def[of "lowerc c"] Let_def)
  next
    case False
    then show ?thesis by (auto simp: lowerc_def Let_def)
  qed
  assume "map lowerc i = n"
  then show ?thesis
    by (induction p i arbitrary: n rule: ci_prefix.induct) (auto simp: idem)
qed

lemma code_open_facts:
  assumes "ci_prefix ''code'' i"
  shows "\<not> ci_prefix ''pre'' i" "\<not> ci_prefix ''script'' i" "\<not> ci_prefix ''style'' i"
    "\<not> closes i" "\<not> breaks i"
proof -
  obtain c j where i: "i = c # j" and c: "lowerc c = CHR ''c''" using assms by (cases i) auto
  show "\<not> ci_prefix ''pre'' i" "\<not> ci_prefix ''script'' i" "\<not> ci_prefix ''style'' i"
    using i c by auto
  have "c \<noteq> CHR ''/''" using c by (auto simp: lowerc_def)
  then show "\<not> closes i" using i by (simp add: closes_def)
  show "\<not> breaks i" using i c by (auto simp: breaks_def)
qed

lemma pre_open_facts:
  assumes "ci_prefix ''pre'' i"
  shows "\<not> ci_prefix ''code'' i"
  using assms by (cases i) auto

lemma close_tag_facts:
  assumes "map lowerc i = CHR ''/'' # n"
  shows "i \<noteq> []" "CHR ''>'' \<notin> set n \<Longrightarrow> CHR ''>'' \<notin> set i" "CHR ''<'' \<notin> set n \<Longrightarrow> CHR ''<'' \<notin> set i"
    "\<not> ci_prefix ''pre'' i" "\<not> ci_prefix ''code'' i" "\<not> ci_prefix ''script'' i" "\<not> ci_prefix ''style'' i"
    "\<not> breaks i"
proof -
  show "i \<noteq> []" using assms by auto
  show "CHR ''>'' \<notin> set n \<Longrightarrow> CHR ''>'' \<notin> set i"
    using map_lowerc_gt[of i] assms by simp
  show "CHR ''<'' \<notin> set n \<Longrightarrow> CHR ''<'' \<notin> set i"
    using map_lowerc_lt[of i] assms by simp
  show "\<not> ci_prefix ''pre'' i" "\<not> ci_prefix ''code'' i" "\<not> ci_prefix ''script'' i" "\<not> ci_prefix ''style'' i"
    unfolding ci_prefix_of_map[OF assms] by (simp_all add: lowerc_def)
  show "\<not> breaks i" unfolding breaks_def ci_prefix_of_map[OF assms] by (simp add: lowerc_def)
qed

lemma code_close_facts:
  assumes "map lowerc i = ''/code''"
  shows "\<not> closes i"
proof -
  obtain c j where i: "i = c # j" and j: "map lowerc j = ''code''" using assms by (cases i) auto
  have "length (map lowerc j) = 4" unfolding j by simp
  then have "length j = 4" by simp
  then have "(case j of [h, l] \<Rightarrow> lowerc h = CHR ''h'' \<and> is_level l | _ \<Rightarrow> False) = False"
    by (auto split: list.splits)
  then show ?thesis using i j by (simp add: closes_def)
qed

lemma render_Cons: "render (p # ps) = render_piece p @ render ps"
  by (simp add: render_def)

lemma render_append: "render (ps @ qs) = render ps @ render qs"
  by (simp add: render_def)

lemma render_Nil: "render [] = []"
  by (simp add: render_def)

lemma code_element_eq:
  "code_element b = CHR ''<'' # cb_open b @ CHR ''>'' # render (cb_body b) @ CHR ''<'' # cb_close b @ ''>''"
  by (simp add: code_element_def render_Cons render_append render_Nil)

text \<open>The lazy scan for a closing tag passes over markup in which that tag does not occur.\<close>

lemma find_close:
  assumes wf: "list_all well_formed ps" and nc: "list_all (\<lambda>p. \<not> is_tag n p) ps"
    and n: "CHR ''>'' \<notin> set n" and c: "map lowerc c = n" and q: "ci_prefix q z"
  shows "find_idx (ci_prefix (CHR ''<'' # n @ CHR ''>'' # q)) (render ps @ CHR ''<'' # c @ CHR ''>'' # z)
           = Some (length (render ps))"
proof -
  let ?P = "ci_prefix (CHR ''<'' # n @ CHR ''>'' # q)"
  let ?Z = "CHR ''<'' # c @ CHR ''>'' # z"
  have cg: "CHR ''>'' \<notin> set c" using map_lowerc_gt[of c] c n by simp
  have here: "?P (drop (length (render ps)) (render ps @ ?Z))"
    using ci_prefix_whole[OF n cg, of q z] c q by simp
  have skip: "\<not> ?P (drop k (render ps @ ?Z))" if k: "k < length (render ps)" for k
  proof (rule pieces_skip[where Q="?P", OF _ wf _ k])
    fix s assume "?P s"
    then show "\<exists>r. s = CHR ''<'' # r" by (rule ci_prefix_anch)
  next
    fix i r assume t: "Tag i \<in> set ps"
    then have ig: "CHR ''>'' \<notin> set i" using well_formed_tag[OF wf] by blast
    have "\<not> is_tag n (Tag i)" using nc t by (auto simp: list_all_iff)
    then have "map lowerc i \<noteq> n" by simp
    then show "\<not> ?P (CHR ''<'' # i @ CHR ''>'' # r @ ?Z)"
      using ci_prefix_whole[OF n ig, of q "r @ ?Z"] by simp
  qed
  show ?thesis unfolding find_idx_Some using here skip by simp
qed

lemma block_ok_facts:
  assumes "block_ok b"
  shows "CHR ''>'' \<notin> set (cb_open b)" "CHR ''<'' \<notin> set (cb_open b)" "cb_open b \<noteq> []"
    "ci_prefix ''code'' (cb_open b)" "map lowerc (cb_close b) = ''/code''"
    "markup (cb_body b)" "list_all well_formed (cb_body b)"
    "list_all (\<lambda>p. \<not> is_tag ''/code'' p) (cb_body b)"
    "list_all (\<lambda>p. \<not> opens ''pre'' p) (cb_body b)"
    "cb_close b \<noteq> []" "CHR ''>'' \<notin> set (cb_close b)" "CHR ''<'' \<notin> set (cb_close b)"
proof -
  show "CHR ''>'' \<notin> set (cb_open b)" "CHR ''<'' \<notin> set (cb_open b)" "cb_open b \<noteq> []"
    "ci_prefix ''code'' (cb_open b)" and c: "map lowerc (cb_close b) = ''/code''"
    and m: "markup (cb_body b)"
    using assms by (simp_all add: block_ok_def)
  show "list_all well_formed (cb_body b)" by (rule markup_well_formed[OF m])
  show "list_all (\<lambda>p. \<not> is_tag ''/code'' p) (cb_body b)"
    "list_all (\<lambda>p. \<not> opens ''pre'' p) (cb_body b)"
    using assms by (simp_all add: block_ok_def list_all_iff)
  show "cb_close b \<noteq> []" "CHR ''>'' \<notin> set (cb_close b)" "CHR ''<'' \<notin> set (cb_close b)"
    using close_tag_facts(1,2,3)[of "cb_close b" "''code''"] c by simp_all
qed

lemma wrapper_facts:
  assumes "block_ok b" and "cb_wrapper b = Some (op, cl)"
  shows "CHR ''>'' \<notin> set op" "CHR ''<'' \<notin> set op" "op \<noteq> []" "ci_prefix ''pre'' op"
    "map lowerc cl = ''/pre''" "cl \<noteq> []" "CHR ''>'' \<notin> set cl" "CHR ''<'' \<notin> set cl"
proof -
  show "CHR ''>'' \<notin> set op" "CHR ''<'' \<notin> set op" "op \<noteq> []" "ci_prefix ''pre'' op"
    and c: "map lowerc cl = ''/pre''"
    using assms by (simp_all add: block_ok_def)
  show "cl \<noteq> []" "CHR ''>'' \<notin> set cl" "CHR ''<'' \<notin> set cl"
    using close_tag_facts(1,2,3)[of cl "''pre''"] c by simp_all
qed

lemma block_html_wrapped:
  "cb_wrapper b = Some (op, cl) \<Longrightarrow>
     block_html b = CHR ''<'' # op @ CHR ''>'' # code_element b @ CHR ''<'' # cl @ ''>''"
  by (simp add: block_html_def render_Cons render_Nil)

lemma block_html_plain: "cb_wrapper b = None \<Longrightarrow> block_html b = code_element b"
  by (simp add: block_html_def)

text \<open>The second pattern matches the \<open>code\<close> element of a block, whatever follows.\<close>

lemma code_m_element:
  assumes ok: "block_ok b"
  shows "code_m (code_element b @ z) = Some (code_element b, length (code_element b))"
proof -
  note f = block_ok_facts[OF ok]
  define R where "R = render (cb_body b) @ CHR ''<'' # cb_close b @ CHR ''>'' # z"
  have s: "code_element b @ z = CHR ''<'' # cb_open b @ CHR ''>'' # R"
    by (simp add: code_element_eq R_def)
  have o: "open_tag ''code'' (code_element b @ z) = Some R"
    unfolding s by (rule open_tag_tag[OF f(1) _ f(4)]) simp
  have "find_idx (ci_prefix (CHR ''<'' # ''/code'' @ CHR ''>'' # [])) R = Some (length (render (cb_body b)))"
    unfolding R_def by (rule find_close[OF f(7) f(8) _ f(5)]) simp_all
  then have j: "find_idx (ci_prefix ''</code>'') R = Some (length (render (cb_body b)))" by simp
  have lc: "length (cb_close b) = 5" using arg_cong[OF f(5), of length] by simp
  have n: "length (code_element b @ z) - length R + length (render (cb_body b)) + 7 = length (code_element b)"
    by (simp add: code_element_eq R_def lc)
  have "code_m (code_element b @ z) = Some (take (length (code_element b)) (code_element b @ z), length (code_element b))"
    by (simp only: code_m_def o j option.case Let_def n)
  then show ?thesis by simp
qed

text \<open>The first pattern matches a wrapped block.\<close>

lemma pre_code_m_block:
  assumes ok: "block_ok b" and w: "cb_wrapper b = Some (op, cl)"
  shows "pre_code_m (block_html b @ z) = Some (block_html b, length (block_html b))"
proof -
  note f = block_ok_facts[OF ok]
  note g = wrapper_facts[OF ok w]
  define Z where "Z = CHR ''<'' # cl @ CHR ''>'' # z"
  define R where "R = render (cb_body b) @ CHR ''<'' # cb_close b @ CHR ''>'' # Z"
  define R1 where "R1 = CHR ''<'' # cb_open b @ CHR ''>'' # R"
  have s: "block_html b @ z = CHR ''<'' # op @ CHR ''>'' # R1"
    by (simp add: block_html_wrapped[OF w] code_element_eq R_def R1_def Z_def)
  have o1: "open_tag ''pre'' (block_html b @ z) = Some R1"
    unfolding s by (rule open_tag_tag[OF g(1) _ g(4)]) simp
  have o2: "open_tag ''code'' R1 = Some R"
    unfolding R1_def by (rule open_tag_tag[OF f(1) _ f(4)]) simp
  have q: "ci_prefix ''</pre>'' Z"
    using ci_prefix_whole[of "''/pre''" cl "[]" z] g(5) g(7) by (simp add: Z_def)
  have "find_idx (ci_prefix (CHR ''<'' # ''/code'' @ CHR ''>'' # ''</pre>'')) R = Some (length (render (cb_body b)))"
    unfolding R_def by (rule find_close[OF f(7) f(8) _ f(5) q]) simp
  then have j: "find_idx (ci_prefix ''</code></pre>'') R = Some (length (render (cb_body b)))" by simp
  have lc: "length (cb_close b) = 5" using arg_cong[OF f(5), of length] by simp
  have ll: "length cl = 4" using arg_cong[OF g(5), of length] by simp
  have n: "length (block_html b @ z) - length R + length (render (cb_body b)) + 13 = length (block_html b)"
    by (simp add: block_html_wrapped[OF w] code_element_eq R_def Z_def lc ll)
  have "pre_code_m (block_html b @ z) = Some (take (length (block_html b)) (block_html b @ z), length (block_html b))"
    by (simp only: pre_code_m_def o1 o2 j option.case Let_def n)
  then show ?thesis by simp
qed

text \<open>The text that pushMatchText makes of the two matches.\<close>

lemma strip_first_tag_at:
  "i \<noteq> [] \<Longrightarrow> CHR ''>'' \<notin> set i \<Longrightarrow> strip_first_tag (CHR ''<'' # i @ CHR ''>'' # r) = r"
  using tag_m_at[of i r] by (simp add: strip_first_tag_def)

lemma strip_last_tag_pieces:
  assumes wf: "list_all well_formed ps" and c: "c \<noteq> []" "CHR ''>'' \<notin> set c"
  shows "strip_last_tag (render ps @ CHR ''<'' # c @ ''>'') = render ps"
proof -
  let ?Z = "CHR ''<'' # c @ ''>''"
  have here: "tag_to_end (drop (length (render ps)) (render ps @ ?Z))"
    using tag_m_at[OF c(2) c(1), of "[]"] by (simp add: tag_to_end_def)
  have skip: "\<not> tag_to_end (drop k (render ps @ ?Z))" if k: "k < length (render ps)" for k
  proof (rule pieces_skip[where Q=tag_to_end, OF _ wf _ k])
    fix s assume "tag_to_end s"
    then show "\<exists>r. s = CHR ''<'' # r" by (rule tag_to_end_anch)
  next
    fix i r assume "Tag i \<in> set ps"
    then have i: "i \<noteq> []" "CHR ''>'' \<notin> set i" using well_formed_tag[OF wf] by blast+
    show "\<not> tag_to_end (CHR ''<'' # i @ CHR ''>'' # r @ ?Z)"
      using tag_m_at[OF i(2) i(1), of "r @ ?Z"] by (simp add: tag_to_end_def)
  qed
  have "find_idx tag_to_end (render ps @ ?Z) = Some (length (render ps))"
    unfolding find_idx_Some using here skip by simp
  then show ?thesis by (simp add: strip_last_tag_def)
qed

lemma code_of_element:
  assumes ok: "block_ok b"
  shows "code_of (code_element b) = block_text b"
proof -
  note f = block_ok_facts[OF ok]
  have 1: "strip_first_tag (code_element b) = render (cb_body b) @ CHR ''<'' # cb_close b @ ''>''"
    unfolding code_element_eq by (rule strip_first_tag_at[OF f(3) f(1)])
  have 2: "strip_last_tag (render (cb_body b) @ CHR ''<'' # cb_close b @ ''>'') = render (cb_body b)"
    by (rule strip_last_tag_pieces[OF f(7) f(10) f(11)])
  show ?thesis
    unfolding code_of_def 1 2 block_text_def by (rule htmlToText_markup[OF f(6)])
qed

lemma text_of_wrapped:
  assumes "\<not> closes a" "\<not> breaks a" "\<not> closes c" "\<not> breaks c"
  shows "text_of (Tag a # ps @ [Tag c]) = text_of ps"
  using assms by (simp add: text_of_def)

lemma code_of_block:
  assumes ok: "block_ok b" and w: "cb_wrapper b = Some (op, cl)"
  shows "code_of (block_html b) = block_text b"
proof -
  note f = block_ok_facts[OF ok]
  note g = wrapper_facts[OF ok w]
  let ?ps = "Tag (cb_open b) # cb_body b @ [Tag (cb_close b)]"
  have wf: "list_all well_formed ?ps" using f by simp
  have m: "markup ?ps"
    using f code_open_facts[OF f(4)] close_tag_facts[OF f(5)[simplified]]
    by (simp add: markup_def)
  have 1: "strip_first_tag (block_html b) = render ?ps @ CHR ''<'' # cl @ ''>''"
    unfolding block_html_wrapped[OF w] code_element_def by (rule strip_first_tag_at[OF g(3) g(1)])
  have 2: "strip_last_tag (render ?ps @ CHR ''<'' # cl @ ''>'') = render ?ps"
    by (rule strip_last_tag_pieces[OF wf g(6) g(7)])
  have 3: "text_of ?ps = text_of (cb_body b)"
    by (rule text_of_wrapped)
       (use code_open_facts[OF f(4)] close_tag_facts[OF f(5)[simplified]] code_close_facts[OF f(5)] in simp_all)
  show ?thesis
    unfolding code_of_def 1 2 block_text_def htmlToText_markup[OF m] 3 ..
qed

text \<open>The two loops of extractCodeBlocks on a page of texts and code blocks.\<close>

lemma skip_no_occurrence:
  assumes none: "find_idx (ci_prefix (CHR ''<'' # q)) xs = None"
    and q: "CHR ''<'' \<notin> set q"
    and mn: "\<And>s. \<not> ci_prefix (CHR ''<'' # q) s \<Longrightarrow> m s = None"
  shows "\<forall>i < length xs. m (drop i (xs @ CHR ''<'' # ys)) = None"
proof (intro allI impI)
  fix i assume i: "i < length xs"
  show "m (drop i (xs @ CHR ''<'' # ys)) = None"
    by (rule mn) (rule no_straddle[OF none q i])
qed

lemma skip_no_occurrence_end:
  assumes none: "find_idx (ci_prefix (CHR ''<'' # q)) xs = None"
    and mn: "\<And>s. \<not> ci_prefix (CHR ''<'' # q) s \<Longrightarrow> m s = None"
  shows "\<forall>i < length xs. m (drop i (xs @ [])) = None"
proof (intro allI impI)
  fix i assume i: "i < length xs"
  have "\<not> ci_prefix (CHR ''<'' # q) (drop i xs)"
    using none i by (simp add: find_idx_None)
  then show "m (drop i (xs @ [])) = None" using mn by simp
qed

lemma match_all_text:
  assumes none: "no_open q t" and q: "CHR ''<'' \<notin> set q"
    and mn: "\<And>s. \<not> ci_prefix (CHR ''<'' # q) s \<Longrightarrow> m s = None"
  shows "match_all m (t @ CHR ''<'' # ys) = match_all m (CHR ''<'' # ys)"
    and "match_all m t = []"
proof -
  have n: "find_idx (ci_prefix (CHR ''<'' # q)) t = None" using none by (simp add: no_open_def)
  show "match_all m (t @ CHR ''<'' # ys) = match_all m (CHR ''<'' # ys)"
    by (rule match_all_skip, rule skip_no_occurrence[OF n q mn])
  have "match_all m (t @ []) = match_all m []"
    by (rule match_all_skip, rule skip_no_occurrence_end[OF n mn])
  then show "match_all m t = []" by simp
qed

lemma match_all_pieces:
  assumes anch: "\<And>s. m s \<noteq> None \<Longrightarrow> \<exists>r. s = CHR ''<'' # r"
    and wf: "list_all well_formed ps"
    and tag: "\<And>i r. Tag i \<in> set ps \<Longrightarrow> m (CHR ''<'' # i @ CHR ''>'' # r @ z) = None"
  shows "match_all m (render ps @ z) = match_all m z"
proof (rule match_all_skip, intro allI impI)
  fix k assume k: "k < length (render ps)"
  have "\<not> (m (drop k (render ps @ z)) \<noteq> None)"
  proof (rule pieces_skip[where Q="\<lambda>s. m s \<noteq> None", OF anch wf _ k])
    fix i r assume "Tag i \<in> set ps"
    from tag[OF this, of r] show "\<not> m (CHR ''<'' # i @ CHR ''>'' # r @ z) \<noteq> None" by simp
  qed
  then show "m (drop k (render ps @ z)) = None" by blast
qed

lemma pre_code_m_tag:
  "\<not> ci_prefix ''pre'' i \<Longrightarrow> pre_code_m (CHR ''<'' # i @ CHR ''>'' # r) = None"
  by (rule pre_code_m_None) (simp add: ci_prefix_inner)

lemma code_m_tag:
  "\<not> ci_prefix ''code'' i \<Longrightarrow> code_m (CHR ''<'' # i @ CHR ''>'' # r) = None"
  by (rule code_m_None) (simp add: ci_prefix_inner)

lemma element_pieces:
  assumes ok: "block_ok b"
  shows "list_all well_formed (Tag (cb_open b) # cb_body b @ [Tag (cb_close b)])"
    and "Tag i \<in> set (Tag (cb_open b) # cb_body b @ [Tag (cb_close b)]) \<Longrightarrow> \<not> ci_prefix ''pre'' i"
proof -
  note f = block_ok_facts[OF ok]
  show "list_all well_formed (Tag (cb_open b) # cb_body b @ [Tag (cb_close b)])" using f by simp
  assume "Tag i \<in> set (Tag (cb_open b) # cb_body b @ [Tag (cb_close b)])"
  then consider "i = cb_open b" | "Tag i \<in> set (cb_body b)" | "i = cb_close b" by auto
  then show "\<not> ci_prefix ''pre'' i"
  proof cases
    case 1
    then show ?thesis using code_open_facts(1)[OF f(4)] by simp
  next
    case 2
    then have "\<not> opens ''pre'' (Tag i)" using f(9) by (auto simp: list_all_iff)
    then show ?thesis by simp
  next
    case 3
    then show ?thesis using close_tag_facts(4)[OF f(5)[simplified]] by simp
  qed
qed

lemma pass_pre_code:
  "list_all (\<lambda>(b, t). block_ok b) bs \<Longrightarrow> list_all (no_open ''pre'') (texts t0 bs) \<Longrightarrow>
     match_all pre_code_m (with_code t0 bs) = map block_html (filter wrapped (map fst bs))"
proof (induction bs arbitrary: t0)
  case Nil
  then have "no_open ''pre'' t0" by (simp add: texts_def)
  from match_all_text(2)[OF this _ pre_code_m_None] show ?case by simp
next
  case (Cons x bs)
  obtain b t' where x: "x = (b, t')" by (cases x) auto
  have ok: "block_ok b" and t0: "no_open ''pre'' t0" using Cons.prems by (simp_all add: x texts_def)
  have ih: "match_all pre_code_m (with_code t' bs) = map block_html (filter wrapped (map fst bs))"
    using Cons.IH[of t'] Cons.prems by (simp add: x texts_def)
  define Z where "Z = with_code t' bs"
  obtain Y where y: "block_html b @ Z = CHR ''<'' # Y"
    by (cases "cb_wrapper b") (auto simp: block_html_def code_element_eq render_Cons)
  have 1: "match_all pre_code_m (t0 @ block_html b @ Z) = match_all pre_code_m (block_html b @ Z)"
    unfolding y by (rule match_all_text(1)[OF t0 _ pre_code_m_None]) simp_all
  have 2: "match_all pre_code_m (block_html b @ Z)
      = (if wrapped b then [block_html b] else []) @ match_all pre_code_m Z"
  proof (cases "cb_wrapper b")
    case None
    have "match_all pre_code_m (render (Tag (cb_open b) # cb_body b @ [Tag (cb_close b)]) @ Z)
        = match_all pre_code_m Z"
    proof (rule match_all_pieces[OF pre_code_m_anch element_pieces(1)[OF ok]])
      fix i r assume "Tag i \<in> set (Tag (cb_open b) # cb_body b @ [Tag (cb_close b)])"
      then have "\<not> ci_prefix ''pre'' i" by (rule element_pieces(2)[OF ok])
      then show "pre_code_m (CHR ''<'' # i @ CHR ''>'' # r @ Z) = None" by (rule pre_code_m_tag)
    qed
    then show ?thesis using None by (simp add: block_html_def code_element_def wrapped_def)
  next
    case (Some w)
    obtain op cl where w: "cb_wrapper b = Some (op, cl)" using Some by (cases w) auto
    have hit: "pre_code_m (block_html b @ Z) = Some (block_html b, length (block_html b))"
      by (rule pre_code_m_block[OF ok w])
    have "match_all pre_code_m (block_html b @ Z)
        = block_html b # match_all pre_code_m (drop (length (block_html b)) (block_html b @ Z))"
      by (rule match_all_hit[where m=pre_code_m and s="block_html b @ Z" and x="block_html b"
            and n="length (block_html b)", OF hit]) (simp_all add: block_html_wrapped[OF w])
    then show ?thesis using w by (simp add: wrapped_def)
  qed
  show ?case using 1 2 ih by (simp add: x Z_def)
qed

lemma pass_code:
  "list_all (\<lambda>(b, t). block_ok b) bs \<Longrightarrow> list_all (no_open ''code'') (texts t0 bs) \<Longrightarrow>
     match_all code_m (with_code t0 bs) = map code_element (map fst bs)"
proof (induction bs arbitrary: t0)
  case Nil
  then have "no_open ''code'' t0" by (simp add: texts_def)
  from match_all_text(2)[OF this _ code_m_None] show ?case by simp
next
  case (Cons x bs)
  obtain b t' where x: "x = (b, t')" by (cases x) auto
  have ok: "block_ok b" and t0: "no_open ''code'' t0" using Cons.prems by (simp_all add: x texts_def)
  have ih: "match_all code_m (with_code t' bs) = map code_element (map fst bs)"
    using Cons.IH[of t'] Cons.prems by (simp add: x texts_def)
  define Z where "Z = with_code t' bs"
  obtain Y where y: "block_html b @ Z = CHR ''<'' # Y"
    by (cases "cb_wrapper b") (auto simp: block_html_def code_element_eq render_Cons)
  have 1: "match_all code_m (t0 @ block_html b @ Z) = match_all code_m (block_html b @ Z)"
    unfolding y by (rule match_all_text(1)[OF t0 _ code_m_None]) simp_all
  have el: "match_all code_m (code_element b @ z) = code_element b # match_all code_m z" for z
  proof -
    have "match_all code_m (code_element b @ z)
        = code_element b # match_all code_m (drop (length (code_element b)) (code_element b @ z))"
      by (rule match_all_hit[where m=code_m and s="code_element b @ z" and x="code_element b"
            and n="length (code_element b)", OF code_m_element[OF ok]]) (simp_all add: code_element_eq)
    then show ?thesis by simp
  qed
  have 2: "match_all code_m (block_html b @ Z) = code_element b # match_all code_m Z"
  proof (cases "cb_wrapper b")
    case None
    then show ?thesis using el[of Z] by (simp add: block_html_def)
  next
    case (Some w)
    obtain op cl where w: "cb_wrapper b = Some (op, cl)" using Some by (cases w) auto
    note g = wrapper_facts[OF ok w]
    have a: "match_all code_m (render [Tag op] @ z) = match_all code_m z" for z
    proof (rule match_all_pieces[OF code_m_anch])
      show "list_all well_formed [Tag op]" using g by simp
      fix i r assume "Tag i \<in> set [Tag op]"
      then have "\<not> ci_prefix ''code'' i" using pre_open_facts[OF g(4)] by simp
      then show "code_m (CHR ''<'' # i @ CHR ''>'' # r @ z) = None" by (rule code_m_tag)
    qed
    have c: "match_all code_m (render [Tag cl] @ z) = match_all code_m z" for z
    proof (rule match_all_pieces[OF code_m_anch])
      show "list_all well_formed [Tag cl]" using g by simp
      fix i r assume "Tag i \<in> set [Tag cl]"
      then have "\<not> ci_prefix ''code'' i" using close_tag_facts(5)[OF g(5)[simplified]] by simp
      then show "code_m (CHR ''<'' # i @ CHR ''>'' # r @ z) = None" by (rule code_m_tag)
    qed
    have "block_html b @ Z = render [Tag op] @ code_element b @ render [Tag cl] @ Z"
      using w by (simp add: block_html_def)
    then show ?thesis by (simp only: a el c)
  qed
  show ?case using 1 2 ih by (simp add: x Z_def)
qed

lemma blockMatches_with_code:
  assumes ok: "list_all (\<lambda>(b, t). block_ok b) bs"
    and np: "list_all (no_open ''pre'') (texts t0 bs)"
    and nc: "list_all (no_open ''code'') (texts t0 bs)"
  shows "blockMatches (with_code t0 bs)
           = map block_html (filter wrapped (map fst bs)) @ map code_element (map fst bs)"
  unfolding blockMatches_def pass_pre_code[OF ok np] pass_code[OF ok nc] ..

lemma extractCodeBlocks_with_code:
  assumes ok: "list_all (\<lambda>(b, t). block_ok b) bs"
    and np: "list_all (no_open ''pre'') (texts t0 bs)"
    and nc: "list_all (no_open ''code'') (texts t0 bs)"
  shows "extractCodeBlocks (with_code t0 bs)
           = filter (\<lambda>c. 3 \<le> non_blank_lines c) (map block_text (filter wrapped (map fst bs)))
             @ filter (\<lambda>c. 3 \<le> non_blank_lines c) (map block_text (map fst bs))"
proof -
  have oks: "block_ok b" if "b \<in> set (map fst bs)" for b
    using ok that by (auto simp: list_all_iff)
  have 1: "map code_of (map block_html (filter wrapped (map fst bs)))
      = map block_text (filter wrapped (map fst bs))"
  proof -
    have "code_of (block_html b) = block_text b" if "b \<in> set (filter wrapped (map fst bs))" for b
    proof -
      have b: "block_ok b" "wrapped b" using that oks by auto
      then obtain op cl where "cb_wrapper b = Some (op, cl)" by (auto simp: wrapped_def)
      from code_of_block[OF b(1) this] show ?thesis .
    qed
    then show ?thesis by simp
  qed
  have 2: "map code_of (map code_element (map fst bs)) = map block_text (map fst bs)"
    using code_of_element[OF oks] by simp
  show ?thesis
    unfolding extractCodeBlocks_count blockMatches_with_code[OF ok np nc] map_append 1 2 by simp
qed

section \<open>Properties of extractCodeBlocks\<close>

lemma replace_all_absent:
  assumes anch: "\<And>s. m s \<noteq> None \<Longrightarrow> \<exists>r. s = a # r"
  shows "a \<notin> set xs \<Longrightarrow> replace_all m rep xs = xs"
proof (induction xs)
  case Nil
  have "m [] = None" using anch[of "[]"] by (cases "m []") auto
  then show ?case by simp
next
  case (Cons x xs)
  have "m (x # xs) = None" using anch[of "x # xs"] Cons.prems by (cases "m (x # xs)") auto
  then show ?case using Cons by simp
qed

lemma lit_m_anch: "lit_m (a # p) s \<noteq> None \<Longrightarrow> \<exists>r. s = a # r"
  by (cases s) (auto simp: lit_m_def split: if_splits)

lemma lit_absent: "CHR ''&'' \<notin> set s \<Longrightarrow> replace_all (lit_m (CHR ''&'' # p)) rep s = s"
  by (rule replace_all_absent[where a="CHR ''&''"]) (rule lit_m_anch)

lemma decoded_plain: "CHR ''&'' \<notin> set s \<Longrightarrow> decoded s = s"
  by (simp add: decoded_def lit_absent)

lemma newlines_m_None: "\<not> cs_prefix [CHR 0x0A, CHR 0x0A, CHR 0x0A] s \<Longrightarrow> newlines_m s = None"
proof -
  assume a: "\<not> cs_prefix [CHR 0x0A, CHR 0x0A, CHR 0x0A] s"
  have "length (takeWhile (\<lambda>c. c = CHR 0x0A) s) < 3"
  proof (cases s)
    case Nil
    then show ?thesis by simp
  next
    case 1: (Cons c1 s1)
    show ?thesis
    proof (cases s1)
      case Nil
      then show ?thesis using 1 by simp
    next
      case 2: (Cons c2 s2)
      show ?thesis
      proof (cases s2)
        case Nil
        then show ?thesis using 1 2 by simp
      next
        case (Cons c3 s3)
        then show ?thesis using 1 2 a by auto
      qed
    qed
  qed
  then show ?thesis by (simp add: newlines_m_def)
qed

lemma newlines_plain:
  assumes "find_idx (cs_prefix [CHR 0x0A, CHR 0x0A, CHR 0x0A]) s = None"
  shows "replace_all newlines_m rep s = s"
proof -
  have n: "\<not> cs_prefix [CHR 0x0A, CHR 0x0A, CHR 0x0A] (drop i s)" if "i \<le> length s" for i
    using assms that unfolding find_idx_None by blast
  have "\<forall>i < length s. newlines_m (drop i (s @ [])) = None"
    using n by (simp add: newlines_m_None)
  moreover have "newlines_m [] = None" by (simp add: newlines_m_def)
  ultimately show ?thesis using replace_all_skip[of s newlines_m "[]" rep] by simp
qed

lemma trim_plain: "s = [] \<or> \<not> is_ws (hd s) \<and> \<not> is_ws (last s) \<Longrightarrow> trim s = s"
proof (cases s)
  case Nil
  then show ?thesis by (simp add: trim_def)
next
  case (Cons c cs)
  assume "s = [] \<or> \<not> is_ws (hd s) \<and> \<not> is_ws (last s)"
  then have h: "\<not> is_ws (hd s)" and l: "\<not> is_ws (last s)" using Cons by auto
  have 1: "dropWhile is_ws s = s" using h Cons by simp
  have "hd (rev s) = last s" using Cons by (simp add: hd_rev)
  then have 2: "dropWhile is_ws (rev s) = rev s" using l by (simp add: dropWhile_eq_self_iff)
  show ?thesis unfolding trim_def 1 2 by simp
qed

lemma text_of_plain:
  assumes "plain (concat (map piece_text ps))"
  shows "text_of ps = concat (map piece_text ps)"
  using assms unfolding text_of_def plain_def
  by (simp add: decoded_plain newlines_plain trim_plain)

text \<open>
  C8 as stated fails on a block whose code has an opening bracket of its own: the
  removal of the last tag takes everything from that bracket on. The block below has
  three non-blank lines, in the plain text of its content too, and is not in the result.
\<close>

theorem extractCodeBlocks_bracket_counterexample:
  "match_all pre_code_m bracket_page = [bracket_page]
   \<and> match_all code_m bracket_page = [''<code>if (a < b) {\<newline>  x();\<newline>}</code>'']
   \<and> htmlToText ''if (a < b) {\<newline>  x();\<newline>}'' = ''if (a < b) {\<newline>  x();\<newline>}''
   \<and> non_blank_lines ''if (a < b) {\<newline>  x();\<newline>}'' = 3
   \<and> code_of bracket_page = ''if (a''
   \<and> code_of ''<code>if (a < b) {\<newline>  x();\<newline>}</code>'' = ''if (a''
   \<and> extractCodeBlocks bracket_page = []"
  by code_simp

text \<open>
  C8, as the code has it. On every page the result holds the texts of the matches that
  have three or more non-blank lines, and no other. On a page of texts without \<open><pre\<close>
  and \<open><code\<close> and of code blocks whose content is markup (texts without an opening
  bracket, and tags) with no \<open></code>\<close>, \<open><pre\<close>, \<open><script\<close> or \<open><style\<close> in it, the
  text of a block is the plain text of its content: a block with at most two non-blank
  lines, a single import line among them, is not in the result, a block with three or
  more is, and when the content with its tags taken away has no ampersand, no run of
  three line feeds and no white space at its ends, that is the text, character by
  character.
\<close>

theorem extractCodeBlocks_filter:
  "extractCodeBlocks html = filter (\<lambda>c. 3 \<le> non_blank_lines c) (map code_of (blockMatches html))
   \<and> (\<forall>s \<in> set (blockMatches html). non_blank_lines (code_of s) \<le> 2 \<longrightarrow>
         code_of s \<notin> set (extractCodeBlocks html))
   \<and> (\<forall>s \<in> set (blockMatches html). 3 \<le> non_blank_lines (code_of s) \<longrightarrow>
         code_of s \<in> set (extractCodeBlocks html))
   \<and> (list_all (\<lambda>(b, t). block_ok b) bs \<and> list_all (no_open ''pre'') (texts t0 bs)
        \<and> list_all (no_open ''code'') (texts t0 bs) \<and> html = with_code t0 bs \<longrightarrow>
        (\<forall>b \<in> set (map fst bs).
           (non_blank_lines (block_text b) \<le> 2 \<longrightarrow> block_text b \<notin> set (extractCodeBlocks html))
         \<and> (3 \<le> non_blank_lines (block_text b) \<longrightarrow> block_text b \<in> set (extractCodeBlocks html))
         \<and> (plain (concat (map piece_text (cb_body b))) \<longrightarrow>
               block_text b = concat (map piece_text (cb_body b)))))"
proof -
  have e: "extractCodeBlocks html = filter (\<lambda>c. 3 \<le> non_blank_lines c) (map code_of (blockMatches html))"
    by (rule extractCodeBlocks_count)
  have g: "(\<forall>s \<in> set (blockMatches html). non_blank_lines (code_of s) \<le> 2 \<longrightarrow>
         code_of s \<notin> set (extractCodeBlocks html))
   \<and> (\<forall>s \<in> set (blockMatches html). 3 \<le> non_blank_lines (code_of s) \<longrightarrow>
         code_of s \<in> set (extractCodeBlocks html))"
    unfolding e by auto
  have p: "\<forall>b \<in> set (map fst bs).
           (non_blank_lines (block_text b) \<le> 2 \<longrightarrow> block_text b \<notin> set (extractCodeBlocks html))
         \<and> (3 \<le> non_blank_lines (block_text b) \<longrightarrow> block_text b \<in> set (extractCodeBlocks html))
         \<and> (plain (concat (map piece_text (cb_body b))) \<longrightarrow>
               block_text b = concat (map piece_text (cb_body b)))"
    if ok: "list_all (\<lambda>(b, t). block_ok b) bs" and np: "list_all (no_open ''pre'') (texts t0 bs)"
      and nc: "list_all (no_open ''code'') (texts t0 bs)" and h: "html = with_code t0 bs"
  proof -
    note x = extractCodeBlocks_with_code[OF ok np nc]
    show ?thesis unfolding h x by (auto simp: block_text_def text_of_plain)
  qed
  show ?thesis using e g p by blast
qed

theorem extractCodeBlocks_filter_witness:
  "sample_page = ''<p>x</p><pre class=a><code>a\<newline>\<newline><span>b</span> &amp; c\<newline>   \<newline>d</code></pre><p>y</p><code>import x</code><code>x\<newline>\<newline>y</CODE> and <CODE id=z>one\<newline>two\<newline>three</code>.''
   \<and> ''import x'' \<notin> set (extractCodeBlocks sample_page)
   \<and> ''x\<newline>\<newline>y'' \<notin> set (extractCodeBlocks sample_page)
   \<and> ''a\<newline>\<newline>b & c\<newline>   \<newline>d'' \<in> set (extractCodeBlocks sample_page)
   \<and> ''one\<newline>two\<newline>three'' \<in> set (extractCodeBlocks sample_page)"
proof -
  define b1 where "b1 = fst (sample_blocks ! 0)"
  define b2 where "b2 = fst (sample_blocks ! 1)"
  define b3 where "b3 = fst (sample_blocks ! 2)"
  define b4 where "b4 = fst (sample_blocks ! 3)"
  have mem: "b1 \<in> set (map fst sample_blocks)" "b2 \<in> set (map fst sample_blocks)"
    "b3 \<in> set (map fst sample_blocks)" "b4 \<in> set (map fst sample_blocks)"
    by (simp_all add: b1_def b2_def b3_def b4_def sample_blocks_def)
  have ok: "list_all (\<lambda>(b, t). block_ok b) sample_blocks"
    and np: "list_all (no_open ''pre'') (texts ''<p>x</p>'' sample_blocks)"
    and nc: "list_all (no_open ''code'') (texts ''<p>x</p>'' sample_blocks)"
    by code_simp+
  have pg: "sample_page = ''<p>x</p><pre class=a><code>a\<newline>\<newline><span>b</span> &amp; c\<newline>   \<newline>d</code></pre><p>y</p><code>import x</code><code>x\<newline>\<newline>y</CODE> and <CODE id=z>one\<newline>two\<newline>three</code>.''"
    by code_simp
  have t1: "block_text b1 = ''a\<newline>\<newline>b & c\<newline>   \<newline>d''"
    and t2: "block_text b2 = ''import x''"
    and t3: "block_text b3 = ''x\<newline>\<newline>y''"
    unfolding b1_def b2_def b3_def by code_simp+
  have n1: "non_blank_lines ''a\<newline>\<newline>b & c\<newline>   \<newline>d'' = 3"
    and n2: "non_blank_lines ''import x'' = 1"
    and n3: "non_blank_lines ''x\<newline>\<newline>y'' = 2"
    and n4: "non_blank_lines ''one\<newline>two\<newline>three'' = 3"
    by code_simp+
  have c4: "concat (map piece_text (cb_body b4)) = ''one\<newline>two\<newline>three''"
    unfolding b4_def by code_simp
  have p4: "plain ''one\<newline>two\<newline>three''" by code_simp
  from extractCodeBlocks_filter[of sample_page sample_blocks "''<p>x</p>''"] ok np nc
  have all: "\<forall>b \<in> set (map fst sample_blocks).
           (non_blank_lines (block_text b) \<le> 2 \<longrightarrow> block_text b \<notin> set (extractCodeBlocks sample_page))
         \<and> (3 \<le> non_blank_lines (block_text b) \<longrightarrow> block_text b \<in> set (extractCodeBlocks sample_page))
         \<and> (plain (concat (map piece_text (cb_body b))) \<longrightarrow>
               block_text b = concat (map piece_text (cb_body b)))"
    using sample_page_def by blast
  have t4: "block_text b4 = ''one\<newline>two\<newline>three''"
    using all[rule_format, OF mem(4)] p4 unfolding c4 by simp
  have 1: "''a\<newline>\<newline>b & c\<newline>   \<newline>d'' \<in> set (extractCodeBlocks sample_page)"
    using all[rule_format, OF mem(1)] n1 unfolding t1 by simp
  have 2: "''import x'' \<notin> set (extractCodeBlocks sample_page)"
    using all[rule_format, OF mem(2)] n2 unfolding t2 by simp
  have 3: "''x\<newline>\<newline>y'' \<notin> set (extractCodeBlocks sample_page)"
    using all[rule_format, OF mem(3)] n3 unfolding t3 by simp
  have 4: "''one\<newline>two\<newline>three'' \<in> set (extractCodeBlocks sample_page)"
    using all[rule_format, OF mem(4)] n4 unfolding t4 by simp
  show ?thesis using pg 1 2 3 4 by blast
qed

section \<open>The two passes of extractCodeBlocks\<close>

lemma digits_small: "digits (Suc 0) = ''1''" "digits (Suc (Suc 0)) = ''2''"
  "digits (Suc (Suc (Suc 0))) = ''3''" "digits (Suc (Suc (Suc (Suc 0)))) = ''4''"
  by code_simp+

lemma examples_extractAPIInfo:
  "examples (extractAPIInfo (JSString html)) = examples_of (extractCodeBlocks html)"
  by (simp add: extractAPIInfo_def extractAPIInfo_try_def str_of_def Let_def split: option.splits)

text \<open>
  C10, as the code has it. Take a page of texts without \<open><pre\<close> and \<open><code\<close> and of
  code blocks, any number of them, wrapped in \<open>pre\<close> or not, whose content is markup with
  no \<open></code>\<close>, \<open><pre\<close>, \<open><script\<close> or \<open><style\<close> in it. The first loop matches the
  wrapped blocks, the second loop the \<open>code\<close> element of every block, the wrapped ones
  again, and both give the plain text of the content. The result is the texts with three
  or more non-blank lines of the wrapped blocks, followed by those of all the blocks: a
  wrapped block that is kept is in the result twice, and the examples of extractAPIInfo
  are made of that list.
\<close>

theorem extractCodeBlocks_pre_block_twice:
  assumes ok: "list_all (\<lambda>(b, t). block_ok b) bs"
    and np: "list_all (no_open ''pre'') (texts t0 bs)"
    and nc: "list_all (no_open ''code'') (texts t0 bs)"
  shows "match_all pre_code_m (with_code t0 bs) = map block_html (filter wrapped (map fst bs))
       \<and> match_all code_m (with_code t0 bs) = map code_element (map fst bs)
       \<and> extractCodeBlocks (with_code t0 bs)
           = filter (\<lambda>c. 3 \<le> non_blank_lines c) (map block_text (filter wrapped (map fst bs)))
             @ filter (\<lambda>c. 3 \<le> non_blank_lines c) (map block_text (map fst bs))
       \<and> (\<forall>b \<in> set (map fst bs). wrapped b \<and> 3 \<le> non_blank_lines (block_text b) \<longrightarrow>
             2 \<le> count_list (extractCodeBlocks (with_code t0 bs)) (block_text b))
       \<and> examples (extractAPIInfo (JSString (with_code t0 bs)))
           = examples_of (extractCodeBlocks (with_code t0 bs))"
proof -
  note e = extractCodeBlocks_with_code[OF ok np nc]
  have c: "2 \<le> count_list (extractCodeBlocks (with_code t0 bs)) (block_text b)"
    if b: "b \<in> set (map fst bs)" and w: "wrapped b" and l: "3 \<le> non_blank_lines (block_text b)" for b
  proof -
    let ?xs = "filter (\<lambda>c. 3 \<le> non_blank_lines c) (map block_text (filter wrapped (map fst bs)))"
    let ?ys = "filter (\<lambda>c. 3 \<le> non_blank_lines c) (map block_text (map fst bs))"
    have "block_text b \<in> set ?xs" "block_text b \<in> set ?ys" using b w l by auto
    then have "count_list ?xs (block_text b) \<noteq> 0" "count_list ?ys (block_text b) \<noteq> 0"
      by (simp_all only: count_list_0_iff not_not)
    then show ?thesis unfolding e by simp
  qed
  show ?thesis
    using pass_pre_code[OF ok np] pass_code[OF ok nc] e c examples_extractAPIInfo by blast
qed

theorem extractCodeBlocks_pre_block_twice_witness:
  "twice_page = ''<p>x</p><pre><code class=ts><span class=k>const</span> a = 1;\<newline>b\<newline>c</code></pre><p>Use <code>x</code></p><PRE><code>d\<newline>e\<newline>f</code></PRE>''
   \<and> extractCodeBlocks twice_page
       = [''const a = 1;\<newline>b\<newline>c'', ''d\<newline>e\<newline>f'', ''const a = 1;\<newline>b\<newline>c'', ''d\<newline>e\<newline>f'']
   \<and> 2 \<le> count_list (extractCodeBlocks twice_page) ''const a = 1;\<newline>b\<newline>c''
   \<and> map title (examples (extractAPIInfo (JSString twice_page)))
       = [''Example 1'', ''Example 2'', ''Example 3'', ''Example 4'']
   \<and> map code (examples (extractAPIInfo (JSString twice_page)))
       = [''const a = 1;\<newline>b\<newline>c'', ''d\<newline>e\<newline>f'', ''const a = 1;\<newline>b\<newline>c'', ''d\<newline>e\<newline>f'']"
proof -
  define b1 where "b1 = fst (twice_blocks ! 0)"
  have mem: "b1 \<in> set (map fst twice_blocks)" by (simp add: b1_def twice_blocks_def)
  have w1: "wrapped b1" unfolding b1_def by code_simp
  have ok: "list_all (\<lambda>(b, t). block_ok b) twice_blocks"
    and np: "list_all (no_open ''pre'') (texts ''<p>x</p>'' twice_blocks)"
    and nc: "list_all (no_open ''code'') (texts ''<p>x</p>'' twice_blocks)"
    by code_simp+
  have pg: "twice_page = ''<p>x</p><pre><code class=ts><span class=k>const</span> a = 1;\<newline>b\<newline>c</code></pre><p>Use <code>x</code></p><PRE><code>d\<newline>e\<newline>f</code></PRE>''"
    by code_simp
  have t1: "block_text b1 = ''const a = 1;\<newline>b\<newline>c''" unfolding b1_def by code_simp
  have n1: "non_blank_lines ''const a = 1;\<newline>b\<newline>c'' = 3" by code_simp
  have r: "filter (\<lambda>c. 3 \<le> non_blank_lines c) (map block_text (filter wrapped (map fst twice_blocks)))
             @ filter (\<lambda>c. 3 \<le> non_blank_lines c) (map block_text (map fst twice_blocks))
      = [''const a = 1;\<newline>b\<newline>c'', ''d\<newline>e\<newline>f'', ''const a = 1;\<newline>b\<newline>c'', ''d\<newline>e\<newline>f'']"
    by code_simp
  note th = extractCodeBlocks_pre_block_twice[OF ok np nc, folded twice_page_def]
  have e: "extractCodeBlocks twice_page
       = [''const a = 1;\<newline>b\<newline>c'', ''d\<newline>e\<newline>f'', ''const a = 1;\<newline>b\<newline>c'', ''d\<newline>e\<newline>f'']"
    using th unfolding r by blast
  have "\<forall>b \<in> set (map fst twice_blocks). wrapped b \<and> 3 \<le> non_blank_lines (block_text b) \<longrightarrow>
             2 \<le> count_list (extractCodeBlocks twice_page) (block_text b)"
    using th by blast
  from this[rule_format, OF mem] w1 n1
  have c: "2 \<le> count_list (extractCodeBlocks twice_page) ''const a = 1;\<newline>b\<newline>c''"
    unfolding t1 by simp
  have x: "examples (extractAPIInfo (JSString twice_page)) = examples_of (extractCodeBlocks twice_page)"
    using th by blast
  have ti: "map title (examples (extractAPIInfo (JSString twice_page)))
       = [''Example 1'', ''Example 2'', ''Example 3'', ''Example 4'']"
    unfolding x e by (simp add: examples_of_def example_of_def digits_small)
  have co: "map code (examples (extractAPIInfo (JSString twice_page)))
       = [''const a = 1;\<newline>b\<newline>c'', ''d\<newline>e\<newline>f'', ''const a = 1;\<newline>b\<newline>c'', ''d\<newline>e\<newline>f'']"
    unfolding x e by (simp add: examples_of_def example_of_def)
  show ?thesis using pg e c ti co by blast
qed

text \<open>
  C10 as stated fails on a block whose lines are \<open>code\<close> elements: the first loop takes
  the whole block, which has three lines and is kept; the second loop finds the three
  lines one by one and drops each. The block is in the result once.
\<close>

theorem extractCodeBlocks_once_counterexample:
  "match_all pre_code_m lines_page = [lines_page]
   \<and> code_of lines_page = ''a\<newline>b\<newline>c''
   \<and> length (code_lines (code_of lines_page)) = 3
   \<and> extractCodeBlocks lines_page = [''a\<newline>b\<newline>c'']"
  by code_simp

section \<open>extractAPIInfo on a Brain API section with an Inputs table\<close>













































end
